theory Spec2Isabelle
  imports Main "HOL-Library.Sublist" "HOL-Library.Product_Lexorder" "HOL-Library.Multiset"
begin

section \<open>Strings\<close>

text \<open>
  A Python \<^verbatim>\<open>str\<close> is modelled as a \<^typ>\<open>string\<close>, one \<^typ>\<open>char\<close> per code point, so
  the model covers the code points below 256. The character classes are Python's on
  that range: \<^verbatim>\<open>str.isspace\<close> (also the regular expression class \<^verbatim>\<open>\s\<close>),
  \<^verbatim>\<open>str.isupper\<close>, the word class \<^verbatim>\<open>\w\<close> and \<^verbatim>\<open>str.lower\<close>. Upper-casing is
  modelled where its result is one character of the range (the sharp s, the micro sign
  and the y with diaeresis are left as they are).
\<close>

definition newline :: char where
  "newline = CHR 0x0A"

definition is_space :: "char \<Rightarrow> bool" where
  "is_space c = (c \<in> {CHR 0x09, CHR 0x0A, CHR 0x0B, CHR 0x0C, CHR 0x0D,
                        CHR 0x1C, CHR 0x1D, CHR 0x1E, CHR 0x1F, CHR 0x20,
                        CHR 0x85, CHR 0xA0})"

text \<open>The class \<^verbatim>\<open>[ \t]\<close>.\<close>

definition is_blank :: "char \<Rightarrow> bool" where
  "is_blank c = (c = CHR 0x20 \<or> c = CHR 0x09)"

definition code :: "char \<Rightarrow> nat" where
  "code c = of_char c"

definition is_upper :: "char \<Rightarrow> bool" where
  "is_upper c = ((65 \<le> code c \<and> code c \<le> 90) \<or>
                 (192 \<le> code c \<and> code c \<le> 222 \<and> code c \<noteq> 215))"

definition is_lower :: "char \<Rightarrow> bool" where
  "is_lower c = ((97 \<le> code c \<and> code c \<le> 122) \<or> code c = 170 \<or> code c = 181 \<or>
                 code c = 186 \<or> (223 \<le> code c \<and> code c \<noteq> 247))"

definition is_numeric :: "char \<Rightarrow> bool" where
  "is_numeric c = ((48 \<le> code c \<and> code c \<le> 57) \<or> code c = 178 \<or> code c = 179 \<or>
                 code c = 185 \<or> (188 \<le> code c \<and> code c \<le> 190))"

text \<open>The class \<^verbatim>\<open>\w\<close>: alphanumeric or the underscore.\<close>

definition is_word :: "char \<Rightarrow> bool" where
  "is_word c = (is_upper c \<or> is_lower c \<or> is_numeric c \<or> c = CHR ''_'')"

definition lower_char :: "char \<Rightarrow> char" where
  "lower_char c = (if is_upper c then char_of (code c + 32) else c)"

definition upper_char :: "char \<Rightarrow> char" where
  "upper_char c =
     (if (97 \<le> code c \<and> code c \<le> 122) \<or> (224 \<le> code c \<and> code c \<le> 254 \<and> code c \<noteq> 247)
      then char_of (code c - 32) else c)"

text \<open>\<^verbatim>\<open>s.lower()\<close>\<close>

definition lower :: "string \<Rightarrow> string" where
  "lower s = map lower_char s"

text \<open>
  \<^verbatim>\<open>s.title()\<close>: a cased character is upper-cased when the character before it is
  not cased, and lower-cased otherwise.
\<close>

fun title_from :: "bool \<Rightarrow> string \<Rightarrow> string" where
  "title_from prev [] = []"
| "title_from prev (c # cs) =
     (if is_upper c \<or> is_lower c
      then (if prev then lower_char c else upper_char c) # title_from True cs
      else c # title_from False cs)"

definition title :: "string \<Rightarrow> string" where
  "title s = title_from False s"

text \<open>\<^verbatim>\<open>s.strip()\<close>\<close>

definition strip :: "string \<Rightarrow> string" where
  "strip s = rev (dropWhile is_space (rev (dropWhile is_space s)))"

text \<open>
  \<^verbatim>\<open>s.split(sep)\<close> for a separator of one character. The result is never empty,
  so the first case of the inner distinction does not occur.
\<close>

fun split :: "char \<Rightarrow> string \<Rightarrow> string list" where
  "split sep [] = [[]]"
| "split sep (c # cs) =
     (if c = sep then [] # split sep cs
      else (case split sep cs of
              [] \<Rightarrow> [[c]]
            | w # ws \<Rightarrow> (c # w) # ws))"

text \<open>\<^verbatim>\<open>sep.join(parts)\<close>\<close>

fun join :: "string \<Rightarrow> string list \<Rightarrow> string" where
  "join sep [] = []"
| "join sep [p] = p"
| "join sep (p # q # ps) = p @ sep @ join sep (q # ps)"

text \<open>\<^verbatim>\<open>s.replace(" ", "")\<close>\<close>

definition remove_spaces :: "string \<Rightarrow> string" where
  "remove_spaces s = filter (\<lambda>c. c \<noteq> CHR '' '') s"

text \<open>
  Matching a literal under \<^verbatim>\<open>re.I\<close>: two characters match when their lower-case
  forms agree. \<open>match_ci lit s\<close> is the rest of \<open>s\<close> after the literal.
\<close>

definition eq_ci :: "string \<Rightarrow> string \<Rightarrow> bool" where
  "eq_ci s t = (lower s = lower t)"

definition match_ci :: "string \<Rightarrow> string \<Rightarrow> string option" where
  "match_ci lit s =
     (if eq_ci (take (length lit) s) lit then Some (drop (length lit) s) else None)"

text \<open>
  \<^verbatim>\<open>\s+\<close> followed by something that cannot start with white space: the greedy
  run is all of the white space, and it must not be empty.
\<close>

definition match_spaces :: "string \<Rightarrow> string option" where
  "match_spaces s = (if takeWhile is_space s = [] then None else Some (dropWhile is_space s))"

section \<open>Text Normalizer\<close>

text \<open>\<^verbatim>\<open>re.sub(r"[ \t]+", " ", s)\<close>: every maximal run of blanks becomes one space.\<close>

function sub_blank :: "string \<Rightarrow> string" where
  "sub_blank [] = []"
| "sub_blank (c # cs) =
     (if is_blank c then CHR '' '' # sub_blank (dropWhile is_blank cs)
      else c # sub_blank cs)"
  by pat_completeness auto
termination
  by (relation "measure length") (auto simp: length_dropWhile_le less_Suc_eq_le)

text \<open>
  The pattern \<^verbatim>\<open>\s+\n\<close> at the start of a string. \<^verbatim>\<open>\s+\<close> is greedy and a newline
  is white space, so the match ends at the last newline of the white-space run the
  string starts with, the first character left to \<^verbatim>\<open>\s+\<close>. \<open>last_newline\<close> is the
  index of the last newline of a list; the result of \<open>match_space_nl\<close> is the length of
  the match.
\<close>

fun last_newline :: "string \<Rightarrow> nat option" where
  "last_newline [] = None"
| "last_newline (c # cs) =
     (case last_newline cs of
        Some k \<Rightarrow> Some (Suc k)
      | None \<Rightarrow> if c = newline then Some 0 else None)"

fun match_space_nl :: "string \<Rightarrow> nat option" where
  "match_space_nl [] = None"
| "match_space_nl (c # cs) =
     (if is_space c
      then (case last_newline (takeWhile is_space cs) of
              Some k \<Rightarrow> Some (k + 2)
            | None \<Rightarrow> None)
      else None)"

text \<open>
  \<^verbatim>\<open>re.sub(r"\s+\n", "\n", s)\<close>: the matches are found from left to right, each
  search starting where the match before it ended.
\<close>

function sub_space_nl :: "string \<Rightarrow> string" where
  "sub_space_nl [] = []"
| "sub_space_nl (c # cs) =
     (case match_space_nl (c # cs) of
        Some n \<Rightarrow> newline # sub_space_nl (drop n (c # cs))
      | None \<Rightarrow> c # sub_space_nl cs)"
  by pat_completeness auto
termination
  by (relation "measure length") (auto split: if_splits option.splits)

definition text_clean :: "string \<Rightarrow> string" where
  "text_clean s = strip (sub_space_nl (sub_blank s))"

text \<open>
  Two properties of a text that the proofs use: it has no tab and no two blanks in a
  row, and it has no white space before a newline.
\<close>

definition blank_free :: "string \<Rightarrow> bool" where
  "blank_free s =
     (CHR 0x09 \<notin> set s \<and> successively (\<lambda>x y. \<not> (is_blank x \<and> is_blank y)) s)"

definition no_space_nl :: "string \<Rightarrow> bool" where
  "no_space_nl s = successively (\<lambda>x y. \<not> (is_space x \<and> y = newline)) s"

text \<open>\<^verbatim>\<open>re.sub(r"\s+", " ", s)\<close>, which the Page Parser applies to a title.\<close>

function sub_space :: "string \<Rightarrow> string" where
  "sub_space [] = []"
| "sub_space (c # cs) =
     (if is_space c then CHR '' '' # sub_space (dropWhile is_space cs)
      else c # sub_space cs)"
  by pat_completeness auto
termination
  by (relation "measure length") (auto simp: length_dropWhile_le less_Suc_eq_le)

text \<open>
  Two properties of a text that the proofs about titles use: it has no white space,
  and its white space is single spaces.
\<close>

definition no_space :: "string \<Rightarrow> bool" where
  "no_space s = list_all (\<lambda>c. \<not> is_space c) s"

definition single_spaced :: "string \<Rightarrow> bool" where
  "single_spaced s =
     (list_all (\<lambda>c. is_space c \<longrightarrow> c = CHR '' '') s \<and>
      successively (\<lambda>x y. \<not> (is_space x \<and> is_space y)) s)"

text \<open>
  A text as \<^verbatim>\<open>get_text\<close> with \<^verbatim>\<open>strip=True\<close> returns it when it is not empty: it
  starts and ends with a character that is not white space.
\<close>

definition stripped :: "string \<Rightarrow> bool" where
  "stripped s = (s \<noteq> [] \<and> \<not> is_space (hd s) \<and> \<not> is_space (last s))"

section \<open>Filename Token Deriver\<close>

definition NUMERIC_RANK :: "(string \<times> string) list" where
  "NUMERIC_RANK =
     [(''Two'', ''2''), (''Three'', ''3''), (''Four'', ''4''), (''Five'', ''5''),
      (''Six'', ''6''), (''Seven'', ''7''), (''Eight'', ''8''), (''Nine'', ''9''),
      (''Ten'', ''10'')]"

definition RANKS :: "string list" where
  "RANKS = [''Ace'', ''Two'', ''Three'', ''Four'', ''Five'', ''Six'', ''Seven'', ''Eight'',
            ''Nine'', ''Ten'', ''Page'', ''Knight'', ''Queen'', ''King'']"

definition MAJORS :: "string list" where
  "MAJORS = [''The Fool'', ''The Magician'', ''The High Priestess'', ''The Empress'',
             ''The Emperor'', ''The Hierophant'', ''The Lovers'', ''The Chariot'',
             ''Strength'', ''The Hermit'', ''The Wheel of Fortune'', ''Justice'',
             ''The Hanged Man'', ''Death'', ''Temperance'', ''The Devil'', ''The Tower'',
             ''The Star'', ''The Moon'', ''The Sun'', ''Judgement'', ''The World'']"

text \<open>
  The alternation of the rank words at the start of a string: the first alternative
  that matches, with the text it matched and the rest. \<open>ci\<close> is the flag \<^verbatim>\<open>re.I\<close>.
  No rank word is the start of another, so no later alternative could match where an
  earlier one did.
\<close>

fun match_rank :: "bool \<Rightarrow> string list \<Rightarrow> string \<Rightarrow> (string \<times> string) option" where
  "match_rank ci [] s = None"
| "match_rank ci (r # rs) s =
     (if (if ci then eq_ci (take (length r) s) r else take (length r) s = r)
      then Some (take (length r) s, drop (length r) s)
      else match_rank ci rs s)"

text \<open>
  \<^verbatim>\<open>re.match(r"^(Ace|...|King)\s+of\s+(\w+)", title, re.I)\<close>: the two groups of the
  match. \<^verbatim>\<open>\w+\<close> is greedy and nothing follows it, so the second group is the whole
  run of word characters.
\<close>

definition match_rank_of_suit :: "string \<Rightarrow> (string \<times> string) option" where
  "match_rank_of_suit s =
     (case match_rank True RANKS s of
        None \<Rightarrow> None
      | Some (g1, s1) \<Rightarrow>
          (case match_spaces s1 of
             None \<Rightarrow> None
           | Some s2 \<Rightarrow>
               (case match_ci ''of'' s2 of
                  None \<Rightarrow> None
                | Some s3 \<Rightarrow>
                    (case match_spaces s3 of
                       None \<Rightarrow> None
                     | Some s4 \<Rightarrow>
                         (if takeWhile is_word s4 = [] then None
                          else Some (g1, takeWhile is_word s4))))))"

text \<open>\<^verbatim>\<open>re.sub(r"^The\s+", "", title, flags=re.I)\<close>\<close>

definition sub_the :: "string \<Rightarrow> string" where
  "sub_the s =
     (case match_ci ''The'' s of
        None \<Rightarrow> s
      | Some s1 \<Rightarrow> (case match_spaces s1 of None \<Rightarrow> s | Some s2 \<Rightarrow> s2))"

definition card_filename_tokens :: "string \<Rightarrow> string \<Rightarrow> string list" where
  "card_filename_tokens title_text suit_arcana =
     (let title' = strip title_text;
          toks =
            (if suit_arcana = ''Major Arcana''
             then [remove_spaces (sub_the title'), remove_spaces title']
             else (case match_rank_of_suit title' of
                     None \<Rightarrow> []
                   | Some (g1, g2) \<Rightarrow>
                       (let rank = title g1; suit = title g2
                        in [rank @ ''Of'' @ suit] @
                           (case map_of NUMERIC_RANK rank of
                              None \<Rightarrow> []
                            | Some d \<Rightarrow> [d @ ''of'' @ suit]))))
      in map lower toks)"

section \<open>Documents\<close>

text \<open>
  A parsed page is a tree of tags and strings, as the code sees it through the markup
  library: a tag has a name, a dictionary of attributes (the keys with their values,
  looked up by \<open>get\<close>) and a list of children. \<open>descendants\<close> lists the nodes
  below a node in document order. An element of a page is referred to by its index in
  \<open>document soup\<close>, the page in document order with the root first, and the node at
  an index is the whole subtree there.
\<close>

datatype node =
    is_Tag: Tag (name: string) (attrs: "(string \<times> string) list") (contents: "node list")
  | NavigableString (str: string)

text \<open>\<^verbatim>\<open>el.get(key)\<close>\<close>

definition get :: "node \<Rightarrow> string \<Rightarrow> string option" where
  "get el key = map_of (attrs el) key"

text \<open>
  \<^verbatim>\<open>a == b\<close> on nodes: the library compares two tags by name, attributes (as
  dictionaries) and contents, and two strings as strings.
\<close>

definition dict_eq :: "(string \<times> string) list \<Rightarrow> (string \<times> string) list \<Rightarrow> bool" where
  "dict_eq a b = list_all (\<lambda>k. map_of a k = map_of b k) (map fst a @ map fst b)"

fun node_eq :: "node \<Rightarrow> node \<Rightarrow> bool" where
  "node_eq (Tag n a cs) (Tag n' a' cs') = (n = n' \<and> dict_eq a a' \<and> list_all2 node_eq cs cs')"
| "node_eq (NavigableString s) (NavigableString s') = (s = s')"
| "node_eq (Tag n a cs) (NavigableString s') = False"
| "node_eq (NavigableString s) (Tag n' a' cs') = False"

fun descendants :: "node \<Rightarrow> node list" where
  "descendants (Tag n a cs) = concat (map (\<lambda>c. c # descendants c) cs)"
| "descendants (NavigableString s) = []"

definition document :: "node \<Rightarrow> node list" where
  "document soup = soup # descendants soup"

text \<open>\<^verbatim>\<open>el.find_all(names)\<close> and \<^verbatim>\<open>el.find_all(True)\<close>\<close>

definition find_all :: "string list \<Rightarrow> node \<Rightarrow> node list" where
  "find_all names el = filter (\<lambda>n. is_Tag n \<and> name n \<in> set names) (descendants el)"

definition find_all_tags :: "node \<Rightarrow> node list" where
  "find_all_tags el = filter is_Tag (descendants el)"

text \<open>
  \<^verbatim>\<open>el.get_text(separator=" ", strip=True)\<close>: the strings below the element, each
  stripped, the empty ones left out, joined by one space.
\<close>

definition get_text :: "node \<Rightarrow> string" where
  "get_text el =
     join '' '' (filter (\<lambda>s. s \<noteq> [])
       (map (\<lambda>n. strip (str n)) (filter (\<lambda>n. \<not> is_Tag n) (descendants el))))"

text \<open>
  The ancestors of the element at index \<open>i\<close>, the nearest first: the indices before
  \<open>i\<close> whose subtree reaches \<open>i\<close>.
\<close>

definition ancestors :: "node list \<Rightarrow> nat \<Rightarrow> nat list" where
  "ancestors doc i = filter (\<lambda>j. i \<le> j + length (descendants (doc ! j))) (rev [0..<i])"

text \<open>\<^verbatim>\<open>el.find_parent(names)\<close>\<close>

definition find_parent :: "string list \<Rightarrow> node list \<Rightarrow> nat \<Rightarrow> nat option" where
  "find_parent names doc i = find (\<lambda>j. name (doc ! j) \<in> set names) (ancestors doc i)"

text \<open>
  What the code does through libraries: \<^verbatim>\<open>urljoin\<close>, the request for a page and
  its parse (the two calls of \<^verbatim>\<open>get_soup\<close>, which raises when the request fails) and
  the parse of the contents of a \<^verbatim>\<open>noscript\<close> element.
\<close>

datatype exn = HTTPError | ParseError | AttributeError | KeyError

record lib =
  urljoin :: "string \<Rightarrow> string \<Rightarrow> string"
  get_soup :: "string \<Rightarrow> exn + node"
  noscript_soup :: "node \<Rightarrow> exn + node"

section \<open>Asset URL Extractor\<close>

definition BASE :: string where
  "BASE = ''https://www.thismighthurttarot.com''"

definition image_exts :: "string list" where
  "image_exts = [''.jpg'', ''.jpeg'', ''.png'', ''.webp'', ''.gif'']"

text \<open>\<^verbatim>\<open>s.endswith(exts)\<close>\<close>

definition endswith_any :: "string \<Rightarrow> string list \<Rightarrow> bool" where
  "endswith_any s exts = list_ex (\<lambda>e. suffix e s) exts"

text \<open>
  \<^verbatim>\<open>re.search(r"background-image\s*:\s*url\(['\"]?([^)'\"]+)['\"]?\)", style, re.I)\<close>.
  \<open>match_bg\<close> is the group of a match at the start of a string: the group's class
  excludes the quotes and the closing parenthesis, so the greedy group is the whole
  run of its class and the optional quotes are taken when they are there.
\<close>

definition is_quote :: "char \<Rightarrow> bool" where
  "is_quote c = (c = CHR 0x27 \<or> c = CHR 0x22)"

definition drop_quote :: "string \<Rightarrow> string" where
  "drop_quote s = (case s of [] \<Rightarrow> [] | c # cs \<Rightarrow> if is_quote c then cs else c # cs)"

definition match_bg :: "string \<Rightarrow> string option" where
  "match_bg s =
     (case match_ci ''background-image'' s of
        None \<Rightarrow> None
      | Some s1 \<Rightarrow>
          (case match_ci '':'' (dropWhile is_space s1) of
             None \<Rightarrow> None
           | Some s2 \<Rightarrow>
               (case match_ci ''url('' (dropWhile is_space s2) of
                  None \<Rightarrow> None
                | Some s3 \<Rightarrow>
                    (let s4 = drop_quote s3;
                         g = takeWhile (\<lambda>c. \<not> is_quote c \<and> c \<noteq> CHR '')'') s4;
                         s5 = drop_quote (drop (length g) s4)
                     in if g \<noteq> [] \<and> take 1 s5 = '')'' then Some g else None))))"

fun search_bg :: "string \<Rightarrow> string option" where
  "search_bg [] = None"
| "search_bg (c # cs) =
     (case match_bg (c # cs) of Some g \<Rightarrow> Some g | None \<Rightarrow> search_bg cs)"

text \<open>The URLs of one \<^verbatim>\<open>img\<close> element taken from the attributes \<open>keys\<close>, in that order.\<close>

definition img_attr_urls :: "string list \<Rightarrow> node \<Rightarrow> string list" where
  "img_attr_urls keys img =
     concat (map (\<lambda>k. case get img k of
                        None \<Rightarrow> []
                      | Some v \<Rightarrow> if v = [] then [] else [v]) keys)"

definition srcset_urls :: "node \<Rightarrow> string list" where
  "srcset_urls img =
     (case get img ''srcset'' of
        None \<Rightarrow> []
      | Some v \<Rightarrow>
          map (\<lambda>p. hd (split CHR '' '' (strip p)))
            (filter (\<lambda>p. strip p \<noteq> []) (split CHR '','' v)))"

text \<open>The four harvests of \<^verbatim>\<open>_extract_img_url_from\<close>, in the order of the code.\<close>

definition raw_urls :: "lib \<Rightarrow> node \<Rightarrow> string list" where
  "raw_urls L el =
     concat (map (\<lambda>a. case get a ''href'' of None \<Rightarrow> [] | Some h \<Rightarrow> [h])
               (find_all [''a''] el)) @
     concat (map (\<lambda>img. img_attr_urls [''data-src'', ''data-image'', ''src''] img @
                         srcset_urls img)
               (find_all [''img''] el)) @
     concat (map (\<lambda>n. case search_bg (case get n ''style'' of None \<Rightarrow> [] | Some st \<Rightarrow> st) of
                         None \<Rightarrow> []
                       | Some g \<Rightarrow> [g])
               (find_all_tags el)) @
     concat (map (\<lambda>ns. case noscript_soup L ns of
                          Inl e \<Rightarrow> []
                        | Inr ns_soup \<Rightarrow>
                            concat (map (img_attr_urls [''src'', ''data-src'', ''data-image''])
                                      (find_all [''img''] ns_soup)))
               (find_all [''noscript''] el))"

text \<open>The loop that normalizes and filters the harvested URLs.\<close>

definition bad_words :: "string list" where
  "bad_words = [''logo'', ''header'', ''favicon'', ''sprite'']"

fun clean_urls :: "lib \<Rightarrow> string list \<Rightarrow> string list" where
  "clean_urls L [] = []"
| "clean_urls L (u # us) =
     (if u = [] then clean_urls L us
      else
        (let base_u = hd (split CHR ''?'' u); low = lower base_u
         in if list_ex (\<lambda>bad. sublist bad low) bad_words then clean_urls L us
            else if endswith_any low image_exts \<or> sublist ''/images/'' low
                 then urljoin L BASE base_u # clean_urls L us
                 else clean_urls L us))"

definition extract_img_url_from :: "lib \<Rightarrow> node \<Rightarrow> string list" where
  "extract_img_url_from L el = clean_urls L (raw_urls L el)"

section \<open>Nearest-Image Resolver\<close>

text \<open>
  The harvest of the candidates: \<open>seen\<close> is the set of URLs met so far and the list
  holds each URL with the index of the node it was first seen under.
\<close>

fun add_candidates ::
  "nat \<Rightarrow> string list \<Rightarrow> string set \<times> (nat \<times> string) list \<Rightarrow> string set \<times> (nat \<times> string) list"
where
  "add_candidates idx [] st = st"
| "add_candidates idx (url # urls) (seen, candidates) =
     (if url \<notin> seen
      then add_candidates idx urls (insert url seen, candidates @ [(idx, url)])
      else add_candidates idx urls (seen, candidates))"

fun harvest ::
  "lib \<Rightarrow> nat \<Rightarrow> node list \<Rightarrow> string set \<times> (nat \<times> string) list \<Rightarrow> string set \<times> (nat \<times> string) list"
where
  "harvest L idx [] st = st"
| "harvest L idx (n # ns) st =
     harvest L (Suc idx) ns (add_candidates idx (extract_img_url_from L n) st)"

text \<open>
  The sort key of a candidate. A Python tuple is compared lexicographically, as a pair
  of a number and a pair is here.
\<close>

definition score :: "string list \<Rightarrow> nat \<Rightarrow> nat \<times> string \<Rightarrow> int \<times> int \<times> int" where
  "score tokens title_idx idx_url =
     (let idx = fst idx_url; ul = lower (snd idx_url);
          sc = 20 * int (length (filter (\<lambda>t. sublist t ul) tokens))
               + (if list_ex (\<lambda>m. sublist m ul) [''_forweb'', ''forweb'', ''/images/''] then 2 else 0)
               + (if endswith_any ul image_exts then 1 else 0);
          distance = \<bar>int idx - int title_idx\<bar>;
          before_bonus = (if idx < title_idx then 10 else 0)
      in (before_bonus, - distance, sc))"

text \<open>
  \<^verbatim>\<open>sorted(candidates, key=score, reverse=True)\<close>: the sort is stable, and with
  \<^verbatim>\<open>reverse=True\<close> the candidates of equal key keep their order, which is the stable
  ascending sort of the reversed list, reversed.
\<close>

definition sorted_reverse :: "('a \<Rightarrow> 'k::linorder) \<Rightarrow> 'a list \<Rightarrow> 'a list" where
  "sorted_reverse key xs = rev (sort_key key (rev xs))"

text \<open>\<^verbatim>\<open>nodes.index(title_el)\<close>, which raises when the element is not in the list.\<close>

fun index :: "node list \<Rightarrow> node \<Rightarrow> nat option" where
  "index [] x = None"
| "index (y # ys) x = (if node_eq y x then Some 0 else map_option Suc (index ys x))"

text \<open>
  The parts of \<^verbatim>\<open>nearest_card_image_url\<close>. The boundary of the element at index
  \<open>i\<close> is the nearest enclosing section, article or main element, or the parent; an
  element without a parent has none. \<open>title_idx\<close> is the position of the title among
  the tags of the boundary, \<open>candidates\<close> the harvest over them.
\<close>

definition boundary_of :: "node list \<Rightarrow> nat \<Rightarrow> nat option" where
  "boundary_of doc i =
     (case find_parent [''section'', ''article'', ''main''] doc i of
        Some b \<Rightarrow> Some b
      | None \<Rightarrow> (case ancestors doc i of [] \<Rightarrow> None | p # ps \<Rightarrow> Some p))"

definition title_idx :: "node list \<Rightarrow> node \<Rightarrow> nat" where
  "title_idx nodes title_el =
     (case index nodes title_el of Some k \<Rightarrow> k | None \<Rightarrow> length nodes div 2)"

definition candidates :: "lib \<Rightarrow> node list \<Rightarrow> (nat \<times> string) list" where
  "candidates L nodes = snd (harvest L 0 nodes ({}, []))"

text \<open>
  The resolver for the element at index \<open>i\<close> of the document. Without a boundary the
  access to its descendants raises.
\<close>

definition nearest_card_image_url ::
  "lib \<Rightarrow> node list \<Rightarrow> nat \<Rightarrow> string \<Rightarrow> string \<Rightarrow> exn + string option"
where
  "nearest_card_image_url L doc i title_text suit_arcana =
     (case boundary_of doc i of
        None \<Rightarrow> Inl AttributeError
      | Some boundary \<Rightarrow>
          (let nodes = find_all_tags (doc ! boundary);
               T = title_idx nodes (doc ! i);
               cs = candidates L nodes
           in if cs = [] then Inr None
              else (let tokens = card_filename_tokens title_text suit_arcana;
                        best = hd (sorted_reverse (score tokens T) cs)
                    in Inr (Some (snd best)))))"

section \<open>Title Matcher\<close>

text \<open>
  \<^verbatim>\<open>title_regex_for(suit_arcana).fullmatch(txt)\<close>. For Major Arcana the pattern is
  the alternation of the names between \<^verbatim>\<open>^\<close> and \<^verbatim>\<open>$\<close>; for a suit it is
  \<^verbatim>\<open>^RANKS\s+of\s+SUIT$\<close> with the escaped section label for \<^verbatim>\<open>SUIT\<close>. The second
  \<^verbatim>\<open>\s+\<close> may give back white space to the label, so every length of it is tried.
\<close>

definition title_fullmatch :: "string \<Rightarrow> string \<Rightarrow> bool" where
  "title_fullmatch suit_arcana txt =
     (if suit_arcana = ''Major Arcana'' then list_ex (\<lambda>m. eq_ci txt m) MAJORS
      else (case match_rank True RANKS txt of
              None \<Rightarrow> False
            | Some (g1, s1) \<Rightarrow>
                (case match_spaces s1 of
                   None \<Rightarrow> False
                 | Some s2 \<Rightarrow>
                     (case match_ci ''of'' s2 of
                        None \<Rightarrow> False
                      | Some s3 \<Rightarrow>
                          list_ex (\<lambda>k. eq_ci (drop k s3) suit_arcana)
                            [1..<Suc (length (takeWhile is_space s3))]))))"

text \<open>
  \<^verbatim>\<open>title_pat.search(txt)\<close>: the pattern starts with \<^verbatim>\<open>^\<close>, so a match starts at the
  start of the text, and \<^verbatim>\<open>$\<close> matches at the end or before a last newline.
\<close>

definition title_search :: "string \<Rightarrow> string \<Rightarrow> bool" where
  "title_search suit_arcana txt =
     (title_fullmatch suit_arcana txt \<or>
      (txt \<noteq> [] \<and> last txt = newline \<and> title_fullmatch suit_arcana (butlast txt)))"

definition looks_like_subtitle :: "string \<Rightarrow> string \<Rightarrow> bool" where
  "looks_like_subtitle txt suit_arcana =
     (if txt = [] then False
      else if title_search suit_arcana txt then False
      else 3 \<le> length txt \<and> length txt \<le> 60 \<and> is_upper (hd txt))"

section \<open>Paragraph Collector\<close>

text \<open>
  \<^verbatim>\<open>collect_paragraphs\<close> walks the elements after the start node in document order;
  \<open>collect\<close> is its loop over them.
\<close>

fun collect :: "string \<Rightarrow> node list \<Rightarrow> string list" where
  "collect suit_arcana [] = []"
| "collect suit_arcana (cur # rest) =
     (if is_Tag cur
      then (if get_text cur \<noteq> [] \<and> title_search suit_arcana (get_text cur) then []
            else if name cur = ''p'' \<and> get_text cur \<noteq> []
                 then get_text cur # collect suit_arcana rest
                 else collect suit_arcana rest)
      else collect suit_arcana rest)"

definition collect_paragraphs :: "node list \<Rightarrow> nat \<Rightarrow> string \<Rightarrow> string list" where
  "collect_paragraphs doc start_node suit_arcana = collect suit_arcana (drop (Suc start_node) doc)"

section \<open>Page Parser\<close>

record card_record =
  suit_arcana :: string
  card :: string
  subtitle :: string
  description :: string
  image_url :: string
  page_url :: string

text \<open>What the parser prints.\<close>

datatype log_line = Warn_no_cards string

text \<open>
  \<^verbatim>\<open>soup.select_one("main, article, .sqs-layout, #content, #page, body")\<close>: the first
  element of the page, in document order, that one of the selectors matches. The
  classes of an element are the words of its class attribute; \<open>words_from w s\<close>
  are the words of \<open>s\<close> after the started word \<open>w\<close>.
\<close>

fun words_from :: "string \<Rightarrow> string \<Rightarrow> string list" where
  "words_from w [] = (if w = [] then [] else [w])"
| "words_from w (c # cs) =
     (if is_space c then (if w = [] then words_from [] cs else w # words_from [] cs)
      else words_from (w @ [c]) cs)"

definition words :: "string \<Rightarrow> string list" where
  "words s = words_from [] s"

definition selected :: "node \<Rightarrow> bool" where
  "selected n =
     (is_Tag n \<and>
      (name n \<in> {''main'', ''article'', ''body''} \<or>
       (case get n ''class'' of None \<Rightarrow> False | Some v \<Rightarrow> ''sqs-layout'' \<in> set (words v)) \<or>
       get n ''id'' = Some ''content'' \<or> get n ''id'' = Some ''page''))"

definition select_one :: "node list \<Rightarrow> nat option" where
  "select_one doc = find (\<lambda>i. selected (doc ! i)) [1..<length doc]"

text \<open>The content element: the selected one, or the whole page.\<close>

definition content_of :: "node list \<Rightarrow> nat" where
  "content_of doc = (case select_one doc of None \<Rightarrow> 0 | Some c \<Rightarrow> c)"

text \<open>The title scan: the elements of the tag set below the content element whose text
  matches the title pattern and that have no descendant whose text matches it.\<close>

definition title_tags :: "string list" where
  "title_tags = [''a'', ''h1'', ''h2'', ''h3'', ''h4'', ''strong'', ''div'']"

definition is_title_node :: "string \<Rightarrow> node \<Rightarrow> bool" where
  "is_title_node suit el =
     (is_Tag el \<and> name el \<in> set title_tags \<and>
      get_text el \<noteq> [] \<and> title_fullmatch suit (get_text el) \<and>
      \<not> list_ex (\<lambda>child. get_text child \<noteq> [] \<and> title_fullmatch suit (get_text child))
          (find_all_tags el))"

definition title_nodes :: "string \<Rightarrow> node list \<Rightarrow> nat \<Rightarrow> nat list" where
  "title_nodes suit doc content =
     filter (\<lambda>i. is_title_node suit (doc ! i))
       [Suc content..<Suc content + length (descendants (doc ! content))]"

text \<open>The body of the loop over the title nodes, for the title element at index \<open>i\<close>.\<close>

definition next_text :: "node list \<Rightarrow> nat \<Rightarrow> node option" where
  "next_text doc i = find (\<lambda>n. \<not> is_Tag n \<and> strip (str n) \<noteq> []) (drop (Suc i) doc)"

definition card_of :: "lib \<Rightarrow> string \<Rightarrow> string \<Rightarrow> node list \<Rightarrow> nat \<Rightarrow> exn + card_record" where
  "card_of L suit url doc i =
     (let title_text = sub_space (get_text (doc ! i));
          subtitle' = (case next_text doc i of
                         None \<Rightarrow> []
                       | Some next_text_el \<Rightarrow>
                           (let cand = strip (str next_text_el)
                            in if looks_like_subtitle cand suit then cand else []));
          desc_parts = collect_paragraphs doc i suit;
          description' = text_clean (join [newline, newline] desc_parts)
      in case nearest_card_image_url L doc i title_text suit of
           Inl e \<Rightarrow> Inl e
         | Inr img \<Rightarrow>
             Inr \<lparr>suit_arcana = suit, card = title_text, subtitle = subtitle',
                  description = description',
                  image_url = (case img of None \<Rightarrow> [] | Some u \<Rightarrow> u),
                  page_url = url\<rparr>)"

fun cards_of :: "lib \<Rightarrow> string \<Rightarrow> string \<Rightarrow> node list \<Rightarrow> nat list \<Rightarrow> exn + card_record list" where
  "cards_of L suit url doc [] = Inr []"
| "cards_of L suit url doc (i # is) =
     (case card_of L suit url doc i of
        Inl e \<Rightarrow> Inl e
      | Inr r \<Rightarrow> (case cards_of L suit url doc is of
                   Inl e \<Rightarrow> Inl e
                 | Inr rs \<Rightarrow> Inr (r # rs)))"

text \<open>
  The parser returns the records and what it printed, or the exception it raised.
  The pause before it returns changes neither and is left out.
\<close>

definition parse_card_page :: "lib \<Rightarrow> string \<Rightarrow> string \<Rightarrow> exn + card_record list \<times> log_line list" where
  "parse_card_page L suit url_path =
     (let url = urljoin L BASE url_path
      in case get_soup L url of
           Inl e \<Rightarrow> Inl e
         | Inr soup \<Rightarrow>
             (let doc = document soup;
                  content = content_of doc
              in case cards_of L suit url doc (title_nodes suit doc content) of
                   Inl e \<Rightarrow> Inl e
                 | Inr results \<Rightarrow>
                     Inr (results, if results = [] then [Warn_no_cards url] else [])))"

section \<open>Pipeline Driver\<close>

definition PAGES :: "(string \<times> string) list" where
  "PAGES = [(''Major Arcana'', ''/majorarcana''), (''Wands'', ''/wands''), (''Cups'', ''/cups''),
            (''Swords'', ''/swords''), (''Pentacles'', ''/pentacles'')]"

definition order_key :: "(string \<times> int) list" where
  "order_key = [(''Major Arcana'', 0), (''Wands'', 1), (''Cups'', 2), (''Swords'', 3),
                (''Pentacles'', 4)]"

definition num_map :: "(string \<times> int) list" where
  "num_map = [(''Ace'', 1), (''Two'', 2), (''Three'', 3), (''Four'', 4), (''Five'', 5),
              (''Six'', 6), (''Seven'', 7), (''Eight'', 8), (''Nine'', 9), (''Ten'', 10),
              (''Page'', 11), (''Knight'', 12), (''Queen'', 13), (''King'', 14)]"

text \<open>
  \<^verbatim>\<open>sort_key(r)\<close>, where \<^verbatim>\<open>order_key[s]\<close> raises for a label that is not a section.
  The rank is matched as it is written (no \<^verbatim>\<open>re.I\<close>).
\<close>

definition sort_key_of :: "card_record \<Rightarrow> exn + int \<times> int" where
  "sort_key_of r =
     (let s = suit_arcana r; n = card r
      in if s = ''Major Arcana''
         then (case map_of order_key s of None \<Rightarrow> Inl KeyError | Some k \<Rightarrow> Inr (k, 0))
         else (let m = match_rank False RANKS n
               in case map_of order_key s of
                    None \<Rightarrow> Inl KeyError
                  | Some k \<Rightarrow>
                      Inr (k, case m of
                                None \<Rightarrow> 99
                              | Some (g1, rest) \<Rightarrow>
                                  (case map_of num_map g1 of None \<Rightarrow> 99 | Some v \<Rightarrow> v))))"

text \<open>
  \<^verbatim>\<open>rows.sort(key=sort_key)\<close>: the keys are computed first, and the stable sort runs
  when none of them raised.
\<close>

definition sort_rows :: "card_record list \<Rightarrow> exn + card_record list" where
  "sort_rows rows =
     (case find (\<lambda>r. isl (sort_key_of r)) rows of
        Some r \<Rightarrow> Inl (projl (sort_key_of r))
      | None \<Rightarrow> Inr (sort_key (\<lambda>r. projr (sort_key_of r)) rows))"

section \<open>Example pages\<close>

text \<open>
  A library for the examples: \<open>urljoin\<close> as it acts on a path that starts with a
  slash and on an absolute URL, a fetch that returns the given page, and a
  \<^verbatim>\<open>noscript\<close> parse that finds the children again.
\<close>

definition example_lib :: "node \<Rightarrow> lib" where
  "example_lib soup =
     \<lparr>urljoin = (\<lambda>base u. if take 1 u = ''/'' then base @ u else u),
      get_soup = (\<lambda>u. Inr soup),
      noscript_soup = (\<lambda>ns. Inr ns)\<rparr>"

text \<open>A page without a card title.\<close>

definition empty_page :: node where
  "empty_page =
     Tag ''[document]'' []
       [Tag ''html'' []
          [Tag ''body'' []
             [Tag ''h1'' [] [NavigableString ''Coming soon''],
              Tag ''p'' [] [NavigableString ''Nothing here yet.'']]]]"

text \<open>Records as the parser makes them, for the examples of the sort.\<close>

definition example_row :: "string \<Rightarrow> string \<Rightarrow> card_record" where
  "example_row suit title_text =
     \<lparr>suit_arcana = suit, card = title_text, subtitle = [], description = [],
      image_url = [], page_url = []\<rparr>"

definition example_rows :: "card_record list" where
  "example_rows =
     [example_row ''Wands'' ''King of Wands'', example_row ''Major Arcana'' ''The Moon'',
      example_row ''Wands'' ''Ace of Wands'', example_row ''Major Arcana'' ''The Fool'']"


definition two_sided_page :: node where
  "two_sided_page =
     Tag ''[document]'' []
       [Tag ''html'' []
          [Tag ''body'' []
             [Tag ''section'' []
                [Tag ''div'' []
                   [Tag ''a'' [(''href'', ''/images/x.jpg'')] [NavigableString ''Ace of Wands'']],
                 Tag ''div'' [] [Tag ''img'' [(''src'', ''/images/AceOfWands.jpg'')] []]]]]]"


text \<open>
  A page with one card: the image in a container before the title, the title with a
  run of white space in it, a short line after the title and two paragraphs.
\<close>

definition card_page :: node where
  "card_page =
     Tag ''[document]'' []
       [Tag ''html'' []
          [Tag ''body'' []
             [Tag ''main'' []
                [Tag ''div'' [] [Tag ''img'' [(''src'', ''/images/AceOfWands_forWeb.jpg'')] []],
                 Tag ''h2'' [] [NavigableString ''Ace  of\<newline>Wands''],
                 Tag ''p'' [] [NavigableString ''Beginnings''],
                 Tag ''p'' [] [NavigableString ''A spark  of inspiration.''],
                 Tag ''p'' [] [NavigableString ''Take the first step.'']]]]]"

section \<open>Properties of the Text Normalizer\<close>

lemma is_space_newline [simp]: "is_space newline"
  by (simp add: is_space_def newline_def)

lemma not_blank_newline [simp]: "\<not> is_blank newline"
  by (simp add: is_blank_def newline_def)

lemma newline_not_tab [simp]: "newline \<noteq> CHR 0x09"
  by (simp add: newline_def)

lemma is_blank_space: "is_blank c \<Longrightarrow> is_space c"
  by (auto simp: is_blank_def is_space_def)

lemma successively_dropWhile: "successively P xs \<Longrightarrow> successively P (dropWhile R xs)"
  by (induction xs) (auto simp: successively_Cons)

lemma successively_drop: "successively P xs \<Longrightarrow> successively P (drop n xs)"
proof -
  assume "successively P xs"
  then have "successively P (take n xs @ drop n xs)" by simp
  then show ?thesis unfolding successively_append_iff by blast
qed

lemma sub_blank_hd: "sub_blank s = y # ys \<Longrightarrow> is_blank y \<Longrightarrow> s \<noteq> [] \<and> is_blank (hd s)"
  by (cases s) (auto split: if_splits)

lemma sub_blank_no_tab: "CHR 0x09 \<notin> set (sub_blank s)"
  by (induction s rule: sub_blank.induct) (auto simp: is_blank_def)

lemma sub_blank_successively:
  "successively (\<lambda>x y. \<not> (is_blank x \<and> is_blank y)) (sub_blank s)"
proof (induction s rule: sub_blank.induct)
  case 1
  then show ?case by simp
next
  case (2 c cs)
  show ?case
  proof (cases "is_blank c")
    case True
    have "\<not> is_blank (hd (sub_blank (dropWhile is_blank cs)))" if "sub_blank (dropWhile is_blank cs) \<noteq> []"
    proof
      assume b: "is_blank (hd (sub_blank (dropWhile is_blank cs)))"
      from that obtain y ys where e: "sub_blank (dropWhile is_blank cs) = y # ys"
        by (cases "sub_blank (dropWhile is_blank cs)") auto
      with b sub_blank_hd[OF e] have "dropWhile is_blank cs \<noteq> []" "is_blank (hd (dropWhile is_blank cs))"
        by auto
      then show False using hd_dropWhile by blast
    qed
    with True 2 show ?thesis by (auto simp: successively_Cons)
  next
    case False
    with 2 show ?thesis by (auto simp: successively_Cons)
  qed
qed

lemma sub_blank_blank_free: "blank_free (sub_blank s)"
  unfolding blank_free_def using sub_blank_no_tab sub_blank_successively by blast

lemma sub_blank_fix: "blank_free s \<Longrightarrow> sub_blank s = s"
proof (induction s rule: sub_blank.induct)
  case 1
  then show ?case by simp
next
  case (2 c cs)
  from "2.prems" have tl: "blank_free cs"
    by (auto simp: blank_free_def successively_Cons)
  show ?case
  proof (cases "is_blank c")
    case True
    with "2.prems" have c: "c = CHR 0x20" by (auto simp: blank_free_def is_blank_def)
    from True "2.prems" have "cs = [] \<or> \<not> is_blank (hd cs)"
      by (auto simp: blank_free_def successively_Cons)
    then have d: "dropWhile is_blank cs = cs" by (simp add: dropWhile_eq_self_iff)
    with True tl "2.IH"(1) c show ?thesis by simp
  next
    case False
    with tl "2.IH"(2) show ?thesis by simp
  qed
qed

lemma last_newline_takeWhile_match:
  "is_space c \<Longrightarrow> last_newline (takeWhile is_space cs) \<noteq> None \<Longrightarrow> \<not> no_space_nl (c # cs)"
proof (induction cs arbitrary: c)
  case Nil
  then show ?case by simp
next
  case (Cons d ds)
  then show ?case
    by (cases "is_space d") (auto simp: no_space_nl_def split: option.splits if_splits)
qed

lemma match_space_nl_None: "no_space_nl s \<Longrightarrow> match_space_nl s = None"
proof (cases s)
  case Nil
  then show ?thesis by simp
next
  case (Cons c cs)
  assume "no_space_nl s"
  with Cons last_newline_takeWhile_match[of c cs] show ?thesis
    by (auto split: option.splits)
qed

lemma no_space_nl_tl: "no_space_nl (c # cs) \<Longrightarrow> no_space_nl cs"
  by (auto simp: no_space_nl_def successively_Cons)

lemma sub_space_nl_fix: "no_space_nl s \<Longrightarrow> sub_space_nl s = s"
proof (induction s)
  case Nil
  then show ?case by simp
next
  case (Cons c cs)
  then show ?case
    using match_space_nl_None[of "c # cs"] no_space_nl_tl[of c cs] by simp
qed

lemma last_newline_drop: "last_newline xs = Some k \<Longrightarrow> last_newline (drop (Suc k) xs) = None"
  by (induction xs arbitrary: k) (auto split: option.splits if_splits)

lemma last_newline_bound: "last_newline xs = Some k \<Longrightarrow> k < length xs"
  by (induction xs arbitrary: k) (auto split: option.splits if_splits)

lemma takeWhile_drop_run:
  "j \<le> length (takeWhile P xs) \<Longrightarrow> takeWhile P (drop j xs) = drop j (takeWhile P xs)"
proof (induction xs arbitrary: j)
  case Nil
  then show ?case by simp
next
  case (Cons x xs)
  then show ?case by (cases j) (auto split: if_splits)
qed

lemma sub_space_nl_hd_newline:
  "sub_space_nl s = newline # r \<Longrightarrow> last_newline (takeWhile is_space s) \<noteq> None"
  by (cases s) (auto split: option.splits if_splits)

lemma sub_space_nl_hd: "sub_space_nl s = y # ys \<Longrightarrow> y = newline \<or> (s \<noteq> [] \<and> y = hd s)"
  by (cases s) (auto split: option.splits if_splits)

lemma sub_space_nl_set: "set (sub_space_nl s) \<subseteq> insert newline (set s)"
proof (induction s rule: sub_space_nl.induct)
  case 1
  then show ?case by simp
next
  case (2 c cs)
  show ?case
  proof (cases "match_space_nl (c # cs)")
    case None
    with 2 show ?thesis by auto
  next
    case (Some n)
    have "set (drop n (c # cs)) \<subseteq> set (c # cs)" by (rule set_drop_subset)
    with Some "2.IH"(2)[OF Some] show ?thesis by auto
  qed
qed

lemma sub_space_nl_no_space_nl: "no_space_nl (sub_space_nl s)"
proof (induction s rule: sub_space_nl.induct)
  case 1
  then show ?case by (simp add: no_space_nl_def)
next
  case (2 c cs)
  show ?case
  proof (cases "match_space_nl (c # cs)")
    case None
    have "\<not> (is_space c \<and> hd (sub_space_nl cs) = newline)" if ne: "sub_space_nl cs \<noteq> []"
    proof
      assume a: "is_space c \<and> hd (sub_space_nl cs) = newline"
      from ne a obtain r where "sub_space_nl cs = newline # r"
        by (cases "sub_space_nl cs") auto
      then have "last_newline (takeWhile is_space cs) \<noteq> None"
        by (rule sub_space_nl_hd_newline)
      with a None show False by (auto split: option.splits)
    qed
    with None "2.IH"(1) show ?thesis
      by (auto simp: no_space_nl_def successively_Cons)
  next
    case (Some n)
    then obtain k where sp: "is_space c" and k: "last_newline (takeWhile is_space cs) = Some k"
      and n: "n = k + 2"
      by (auto split: if_splits option.splits)
    have d: "drop n (c # cs) = drop (Suc k) cs" using n by simp
    have "Suc k \<le> length (takeWhile is_space cs)"
      using last_newline_bound[OF k] by simp
    then have "takeWhile is_space (drop (Suc k) cs) = drop (Suc k) (takeWhile is_space cs)"
      by (rule takeWhile_drop_run)
    then have none: "last_newline (takeWhile is_space (drop n (c # cs))) = None"
      using last_newline_drop[OF k] d by simp
    have "hd (sub_space_nl (drop n (c # cs))) \<noteq> newline" if ne: "sub_space_nl (drop n (c # cs)) \<noteq> []"
    proof
      assume "hd (sub_space_nl (drop n (c # cs))) = newline"
      with ne obtain r where "sub_space_nl (drop n (c # cs)) = newline # r"
        by (cases "sub_space_nl (drop n (c # cs))") auto
      from sub_space_nl_hd_newline[OF this] none show False by simp
    qed
    with Some "2.IH"(2)[OF Some] show ?thesis
      by (auto simp: no_space_nl_def successively_Cons)
  qed
qed

lemma blank_free_drop: "blank_free s \<Longrightarrow> blank_free (drop n s)"
  unfolding blank_free_def using successively_drop[of _ s n] set_drop_subset[of n s] by blast

lemma sub_space_nl_blank_free: "blank_free s \<Longrightarrow> blank_free (sub_space_nl s)"
proof (induction s rule: sub_space_nl.induct)
  case 1
  then show ?case by simp
next
  case (2 c cs)
  show ?case
  proof (cases "match_space_nl (c # cs)")
    case None
    from "2.prems" have tl: "blank_free cs" by (auto simp: blank_free_def successively_Cons)
    have ih: "blank_free (sub_space_nl cs)" using "2.IH"(1)[OF None tl] .
    have "\<not> (is_blank c \<and> is_blank (hd (sub_space_nl cs)))" if ne: "sub_space_nl cs \<noteq> []"
    proof -
      from ne obtain y ys where e: "sub_space_nl cs = y # ys" by (cases "sub_space_nl cs") auto
      from sub_space_nl_hd[OF e] "2.prems" e show ?thesis
        by (auto simp: blank_free_def successively_Cons)
    qed
    with None ih "2.prems" show ?thesis
      by (auto simp: blank_free_def successively_Cons)
  next
    case (Some n)
    have "blank_free (sub_space_nl (drop n (c # cs)))"
      using "2.IH"(2)[OF Some blank_free_drop[OF "2.prems"]] .
    with Some show ?thesis by (auto simp: blank_free_def successively_Cons newline_def is_blank_def)
  qed
qed

lemma strip_idem: "strip (strip s) = strip s"
proof -
  define u where "u = dropWhile is_space s"
  define v where "v = dropWhile is_space (rev u)"
  have "dropWhile is_space (rev v) = rev v"
  proof (cases "v = []")
    case True
    then show ?thesis by simp
  next
    case False
    have "rev u = takeWhile is_space (rev u) @ v" by (simp add: v_def)
    with False have "last (rev u) = last v" by (metis last_appendR)
    moreover from False have "u \<noteq> []" by (auto simp: v_def)
    ultimately have "hd u = last v" by (simp add: last_rev)
    moreover have "\<not> is_space (hd u)" using \<open>u \<noteq> []\<close> unfolding u_def by (rule hd_dropWhile)
    ultimately have "\<not> is_space (hd (rev v))" using False by (simp add: hd_rev)
    then show ?thesis by (simp add: dropWhile_eq_self_iff)
  qed
  then show ?thesis by (simp add: strip_def u_def v_def)
qed

lemma strip_successively: "successively P s \<Longrightarrow> successively P (strip s)"
  by (simp add: strip_def successively_dropWhile)

lemma strip_set: "set (strip s) \<subseteq> set s"
proof
  fix x assume "x \<in> set (strip s)"
  then have "x \<in> set (dropWhile is_space (rev (dropWhile is_space s)))" by (simp add: strip_def)
  then have "x \<in> set (rev (dropWhile is_space s))" by (rule set_dropWhileD)
  then have "x \<in> set (dropWhile is_space s)" by simp
  then show "x \<in> set s" by (rule set_dropWhileD)
qed

lemma strip_blank_free: "blank_free s \<Longrightarrow> blank_free (strip s)"
  unfolding blank_free_def using strip_successively strip_set by blast

lemma strip_no_space_nl: "no_space_nl s \<Longrightarrow> no_space_nl (strip s)"
  unfolding no_space_nl_def by (rule strip_successively)

lemma text_clean_blank_free: "blank_free (text_clean s)"
  unfolding text_clean_def
  by (intro strip_blank_free sub_space_nl_blank_free sub_blank_blank_free)

lemma text_clean_no_space_nl: "no_space_nl (text_clean s)"
  unfolding text_clean_def by (intro strip_no_space_nl sub_space_nl_no_space_nl)

lemma text_clean_example:
  "text_clean ''  Ace   of Wands \<newline>\<newline>  A  spark.  \<newline> '' = ''Ace of Wands\<newline> A spark.''"
  by code_simp

text \<open>
  C4. The Text Normalizer is idempotent: normalizing a normalized text returns it
  unchanged, for every input string.
\<close>

theorem text_clean_idempotent: "text_clean (text_clean s) = text_clean s"
proof -
  have "text_clean (text_clean s) = strip (text_clean s)"
    unfolding text_clean_def[of "text_clean s"]
    by (simp add: sub_blank_fix[OF text_clean_blank_free] sub_space_nl_fix[OF text_clean_no_space_nl])
  also have "\<dots> = text_clean s" by (simp add: text_clean_def strip_idem)
  finally show ?thesis .
qed

theorem text_clean_idempotent_witness:
  "text_clean ''  Ace   of Wands \<newline>\<newline>  A  spark.  \<newline> '' = ''Ace of Wands\<newline> A spark.'' \<and>
   text_clean ''Ace of Wands\<newline> A spark.'' = ''Ace of Wands\<newline> A spark.''"
  using text_clean_idempotent[of "''  Ace   of Wands \<newline>\<newline>  A  spark.  \<newline> ''"]
    text_clean_example
  by simp

section \<open>Properties of the Filename Token Deriver\<close>

lemma ace_of_wands_value: "card_filename_tokens ''Ace of Wands'' ''Wands'' = [''aceofwands'']"
  by code_simp

lemma two_of_wands_value:
  "card_filename_tokens ''Two of Wands'' ''Wands'' = [''twoofwands'', ''2ofwands'']"
  by code_simp

text \<open>
  C3, as stated: the tokens of the title ``Ace of Wands'' in the section ``Wands''
  include both ``aceofwands'' and ``1ofwands''. They do not: \<open>NUMERIC_RANK\<close> has the
  ranks Two to Ten only, and the Ace has no numeric token.
\<close>

theorem ace_of_wands_tokens_counterexample:
  "\<not> (''aceofwands'' \<in> set (card_filename_tokens ''Ace of Wands'' ''Wands'') \<and>
      ''1ofwands'' \<in> set (card_filename_tokens ''Ace of Wands'' ''Wands''))"
  by (simp add: ace_of_wands_value)

text \<open>
  C3, amended: the tokens of ``Ace of Wands'' in the section ``Wands'' are
  ``aceofwands'' alone, without a numeric token; a rank from Two to Ten has one, as
  ``Two of Wands'' has ``2ofwands'' beside ``twoofwands''.
\<close>

theorem ace_of_wands_tokens:
  "card_filename_tokens ''Ace of Wands'' ''Wands'' = [''aceofwands''] \<and>
   card_filename_tokens ''Two of Wands'' ''Wands'' = [''twoofwands'', ''2ofwands'']"
  by (simp add: ace_of_wands_value two_of_wands_value)

section \<open>Properties of the Asset URL Extractor\<close>







section \<open>Properties of the Page Parser\<close>

text \<open>
  C9. When the page was fetched and the title scan finds no title node, the parser
  returns the empty list of records and one warning, and raises nothing.
\<close>

theorem parse_card_page_no_titles:
  assumes "get_soup L (urljoin L BASE url_path) = Inr soup"
      and "title_nodes suit (document soup) (content_of (document soup)) = []"
  shows "parse_card_page L suit url_path = Inr ([], [Warn_no_cards (urljoin L BASE url_path)])"
  using assms by (simp add: parse_card_page_def Let_def)

lemma empty_page_titles:
  "title_nodes ''Wands'' (document empty_page) (content_of (document empty_page)) = []"
  by code_simp

theorem parse_card_page_no_titles_witness:
  "get_soup (example_lib empty_page) (urljoin (example_lib empty_page) BASE ''/wands'') = Inr empty_page \<and>
   title_nodes ''Wands'' (document empty_page) (content_of (document empty_page)) = [] \<and>
   parse_card_page (example_lib empty_page) ''Wands'' ''/wands'' =
     Inr ([], [Warn_no_cards ''https://www.thismighthurttarot.com/wands''])"
proof -
  have g: "get_soup (example_lib empty_page) (urljoin (example_lib empty_page) BASE ''/wands'') = Inr empty_page"
    by (simp add: example_lib_def)
  have u: "urljoin (example_lib empty_page) BASE ''/wands'' = ''https://www.thismighthurttarot.com/wands''"
    by (simp add: example_lib_def BASE_def)
  show ?thesis
    using parse_card_page_no_titles[OF g empty_page_titles] g empty_page_titles u by simp
qed

section \<open>Properties of the Pipeline Driver\<close>

lemma sort_key_of_sections:
  assumes "suit_arcana r \<in> fst ` set PAGES"
  shows "\<exists>k. sort_key_of r = Inr k"
  using assms by (auto simp: sort_key_of_def PAGES_def order_key_def Let_def)

lemma sort_key_of_major: "suit_arcana r = ''Major Arcana'' \<Longrightarrow> sort_key_of r = Inr (0, 0)"
  by (simp add: sort_key_of_def order_key_def)

lemma sort_key_of_wands: "suit_arcana r = ''Wands'' \<Longrightarrow> \<exists>n. sort_key_of r = Inr (1, n)"
  by (simp add: sort_key_of_def order_key_def Let_def)

lemma rank_ace: "match_rank False RANKS ''Ace of Wands'' = Some (''Ace'', '' of Wands'')"
  by code_simp
lemma rank_king: "match_rank False RANKS ''King of Wands'' = Some (''King'', '' of Wands'')"
  by code_simp

lemma sort_key_of_ace:
  "suit_arcana r = ''Wands'' \<Longrightarrow> card r = ''Ace of Wands'' \<Longrightarrow> sort_key_of r = Inr (1, 1)"
  by (simp add: sort_key_of_def order_key_def Let_def rank_ace num_map_def)

lemma sort_key_of_king:
  "suit_arcana r = ''Wands'' \<Longrightarrow> card r = ''King of Wands'' \<Longrightarrow> sort_key_of r = Inr (1, 14)"
  by (simp add: sort_key_of_def order_key_def Let_def rank_king num_map_def)

lemma sort_rows_Inr:
  assumes "list_all (\<lambda>r. suit_arcana r \<in> fst ` set PAGES) rows"
  shows "sort_rows rows = Inr (sort_key (\<lambda>r. projr (sort_key_of r)) rows)"
proof -
  have "find (\<lambda>r. isl (sort_key_of r)) rows = None"
    using assms sort_key_of_sections by (fastforce simp: find_None_iff list_all_iff)
  then show ?thesis by (simp add: sort_rows_def)
qed

lemma sorted_nth_less:
  assumes "sorted (map f xs)" "i < length xs" "j < length xs" "f (xs ! i) < f (xs ! j)"
  shows "i < j"
proof (rule ccontr)
  assume "\<not> i < j"
  then have "j \<le> i" by simp
  with assms(1,2) have "map f xs ! j \<le> map f xs ! i"
    by (intro sorted_nth_mono) auto
  with assms show False by simp
qed

lemma match_rank_words:
  "list_all (\<lambda>w. \<forall>rest. match_rank False RANKS (w @ rest) = Some (w, rest)) (map fst num_map)"
  by (simp add: num_map_def RANKS_def)

lemma sort_key_of_rank:
  assumes "suit_arcana r \<in> fst ` set PAGES" "suit_arcana r \<noteq> ''Major Arcana''"
    and "(w, v) \<in> set num_map" "card r = w @ rest"
  shows "\<exists>k. map_of order_key (suit_arcana r) = Some k \<and> sort_key_of r = Inr (k, v)"
proof -
  from assms(1) obtain k where o: "map_of order_key (suit_arcana r) = Some k"
    by (auto simp: PAGES_def order_key_def)
  have "distinct (map fst num_map)" by (simp add: num_map_def)
  with assms(3) have n: "map_of num_map w = Some v" by simp
  from assms(3) match_rank_words have "match_rank False RANKS (w @ rest) = Some (w, rest)"
    by (force simp: list_all_iff)
  with assms(2,4) o n show ?thesis by (simp add: sort_key_of_def Let_def)
qed

text \<open>
  C8. For records of the five sections the sort returns a permutation of the records,
  in ascending order of the key (the display order of the section, then the rank,
  with (0, 0) for every Major Arcana record) and with the records of equal key in
  their order of discovery. The rank of a suit record whose title starts with a rank
  word is the number of the word in \<open>num_map\<close>, 1 for Ace up to 14 for King. Hence the Major Arcana records keep their order, every
  Major Arcana record comes before every Wands record, and in Wands ``Ace of Wands''
  (rank 1) comes before ``King of Wands'' (rank 14).
\<close>

theorem sort_rows_order:
  assumes "list_all (\<lambda>r. suit_arcana r \<in> fst ` set PAGES) rows"
  shows "\<exists>out. sort_rows rows = Inr out \<and> mset out = mset rows \<and>
           sorted (map (\<lambda>r. projr (sort_key_of r)) out) \<and>
           (\<forall>k. filter (\<lambda>r. sort_key_of r = Inr k) out = filter (\<lambda>r. sort_key_of r = Inr k) rows) \<and>
           filter (\<lambda>r. suit_arcana r = ''Major Arcana'') out =
             filter (\<lambda>r. suit_arcana r = ''Major Arcana'') rows \<and>
           (\<forall>r \<in> set out. \<forall>w v rest.
               suit_arcana r \<noteq> ''Major Arcana'' \<and> (w, v) \<in> set num_map \<and> card r = w @ rest
               \<longrightarrow> (\<exists>k. map_of order_key (suit_arcana r) = Some k \<and>
                         sort_key_of r = Inr (k, v))) \<and>
           (\<forall>i j. i < length out \<and> j < length out \<and>
                  suit_arcana (out ! i) = ''Major Arcana'' \<and> suit_arcana (out ! j) = ''Wands''
                  \<longrightarrow> sort_key_of (out ! i) = Inr (0, 0) \<and> i < j) \<and>
           (\<forall>i j. i < length out \<and> j < length out \<and>
                  suit_arcana (out ! i) = ''Wands'' \<and> card (out ! i) = ''Ace of Wands'' \<and>
                  suit_arcana (out ! j) = ''Wands'' \<and> card (out ! j) = ''King of Wands''
                  \<longrightarrow> sort_key_of (out ! i) = Inr (1, 1) \<and> sort_key_of (out ! j) = Inr (1, 14) \<and> i < j)"
proof -
  define key where "key = (\<lambda>r. projr (sort_key_of r))"
  define out where "out = sort_key key rows"
  have res: "sort_rows rows = Inr out"
    using sort_rows_Inr[OF assms] by (simp add: out_def key_def)
  have perm: "mset out = mset rows" by (simp add: out_def)
  have srt: "sorted (map key out)" by (simp add: out_def)
  have all: "\<And>r. r \<in> set rows \<Longrightarrow> sort_key_of r = Inr (key r)"
    using assms sort_key_of_sections by (fastforce simp: list_all_iff key_def)
  have stable: "filter (\<lambda>r. sort_key_of r = Inr k) out = filter (\<lambda>r. sort_key_of r = Inr k) rows" for k
  proof -
    have "filter (\<lambda>r. sort_key_of r = Inr k) out = filter (\<lambda>r. key r = k) out"
      using all by (intro filter_cong) (auto simp: out_def)
    also have "\<dots> = filter (\<lambda>r. key r = k) rows" by (simp add: out_def sort_key_stable)
    also have "\<dots> = filter (\<lambda>r. sort_key_of r = Inr k) rows"
      using all by (intro filter_cong) auto
    finally show ?thesis .
  qed
  have major: "filter (\<lambda>r. suit_arcana r = ''Major Arcana'') out =
      filter (\<lambda>r. suit_arcana r = ''Major Arcana'') rows"
  proof -
    have iff: "suit_arcana r = ''Major Arcana'' \<longleftrightarrow> sort_key_of r = Inr (0, 0)" for r
      by (auto simp: sort_key_of_def order_key_def Let_def split: option.splits if_splits)
    show ?thesis unfolding iff by (rule stable)
  qed
  have mw: "sort_key_of (out ! i) = Inr (0, 0) \<and> i < j"
    if "i < length out" and "j < length out" and "suit_arcana (out ! i) = ''Major Arcana''"
       and "suit_arcana (out ! j) = ''Wands''" for i j
  proof -
    have ki: "sort_key_of (out ! i) = Inr (0, 0)" using that(3) by (rule sort_key_of_major)
    note w = that(4)
    obtain n where kj: "sort_key_of (out ! j) = Inr (1, n)"
      using sort_key_of_wands[OF w] by blast
    have "key (out ! i) < key (out ! j)" using ki kj by (simp add: key_def)
    with srt that(1,2) have "i < j" by (rule sorted_nth_less)
    with ki show ?thesis by simp
  qed
  have ak: "sort_key_of (out ! i) = Inr (1, 1) \<and> sort_key_of (out ! j) = Inr (1, 14) \<and> i < j"
    if "i < length out" and "j < length out"
       and "suit_arcana (out ! i) = ''Wands''" and "card (out ! i) = ''Ace of Wands''"
       and "suit_arcana (out ! j) = ''Wands''" and "card (out ! j) = ''King of Wands''" for i j
  proof -
    have ki: "sort_key_of (out ! i) = Inr (1, 1)" using that(3,4) by (rule sort_key_of_ace)
    have kj: "sort_key_of (out ! j) = Inr (1, 14)" using that(5,6) by (rule sort_key_of_king)
    have "key (out ! i) < key (out ! j)" using ki kj by (simp add: key_def)
    with srt that(1,2) have "i < j" by (rule sorted_nth_less)
    with ki kj show ?thesis by simp
  qed
  have rk: "\<exists>k. map_of order_key (suit_arcana r) = Some k \<and> sort_key_of r = Inr (k, v)"
    if "r \<in> set out" and "suit_arcana r \<noteq> ''Major Arcana''" and "(w, v) \<in> set num_map"
      and "card r = w @ rest" for r w v rest
  proof -
    from that(1) assms have "suit_arcana r \<in> fst ` set PAGES"
      by (simp add: out_def list_all_iff)
    then show ?thesis using that(2,3,4) by (rule sort_key_of_rank)
  qed
  show ?thesis
  proof (intro exI[of _ out] conjI)
    show "sort_rows rows = Inr out" by (rule res)
    show "mset out = mset rows" by (rule perm)
    show "sorted (map (\<lambda>r. projr (sort_key_of r)) out)" using srt by (simp add: key_def)
    show "\<forall>k. filter (\<lambda>r. sort_key_of r = Inr k) out = filter (\<lambda>r. sort_key_of r = Inr k) rows"
      using stable by blast
    show "filter (\<lambda>r. suit_arcana r = ''Major Arcana'') out =
        filter (\<lambda>r. suit_arcana r = ''Major Arcana'') rows" by (rule major)
    show "\<forall>r \<in> set out. \<forall>w v rest.
        suit_arcana r \<noteq> ''Major Arcana'' \<and> (w, v) \<in> set num_map \<and> card r = w @ rest
        \<longrightarrow> (\<exists>k. map_of order_key (suit_arcana r) = Some k \<and> sort_key_of r = Inr (k, v))"
      using rk by blast
    show "\<forall>i j. i < length out \<and> j < length out \<and>
        suit_arcana (out ! i) = ''Major Arcana'' \<and> suit_arcana (out ! j) = ''Wands''
        \<longrightarrow> sort_key_of (out ! i) = Inr (0, 0) \<and> i < j"
      using mw by blast
    show "\<forall>i j. i < length out \<and> j < length out \<and>
        suit_arcana (out ! i) = ''Wands'' \<and> card (out ! i) = ''Ace of Wands'' \<and>
        suit_arcana (out ! j) = ''Wands'' \<and> card (out ! j) = ''King of Wands''
        \<longrightarrow> sort_key_of (out ! i) = Inr (1, 1) \<and> sort_key_of (out ! j) = Inr (1, 14) \<and> i < j"
      using ak by blast
  qed
qed

lemma example_rows_sorted:
  "sort_rows example_rows =
     Inr [example_row ''Major Arcana'' ''The Moon'', example_row ''Major Arcana'' ''The Fool'',
          example_row ''Wands'' ''Ace of Wands'', example_row ''Wands'' ''King of Wands'']"
  by code_simp

lemma example_rows_sections: "list_all (\<lambda>r. suit_arcana r \<in> fst ` set PAGES) example_rows"
  by (simp add: example_rows_def example_row_def PAGES_def)

theorem sort_rows_order_witness:
  "list_all (\<lambda>r. suit_arcana r \<in> fst ` set PAGES) example_rows \<and>
   sort_rows example_rows =
     Inr [example_row ''Major Arcana'' ''The Moon'', example_row ''Major Arcana'' ''The Fool'',
          example_row ''Wands'' ''Ace of Wands'', example_row ''Wands'' ''King of Wands''] \<and>
   (\<exists>out. sort_rows example_rows = Inr out \<and> mset out = mset example_rows \<and>
          sorted (map (\<lambda>r. projr (sort_key_of r)) out))"
  using sort_rows_order[OF example_rows_sections] example_rows_sections example_rows_sorted
  by blast

section \<open>Properties of the Nearest-Image Resolver\<close>













lemma two_sided_boundary: "boundary_of (document two_sided_page) 5 = Some 3"
  by code_simp













section \<open>Properties of the Title Matcher and the card titles\<close>

lemma char_eq_code: "(c = d) = (code c = code d)"
  by (auto simp: code_def)

lemma is_space_code:
  "is_space c \<longleftrightarrow> code c \<in> {9, 10, 11, 12, 13, 28, 29, 30, 31, 32, 133, 160}"
  by (simp add: is_space_def char_eq_code) (simp add: code_def)

lemma code_lower_char: "code (lower_char c) = (if is_upper c then code c + 32 else code c)"
  by (auto simp: lower_char_def is_upper_def code_def)

lemma space_not_upper: "is_space c \<Longrightarrow> \<not> is_upper c"
  unfolding is_space_code is_upper_def by auto

lemma is_space_lower_char: "is_space c \<Longrightarrow> lower_char c = c"
  by (simp add: lower_char_def space_not_upper)

lemma lower_char_space: "is_space (lower_char c) \<Longrightarrow> is_space c"
proof (cases "is_upper c")
  case True
  assume "is_space (lower_char c)"
  then have "code c + 32 \<in> {9, 10, 11, 12, 13, 28, 29, 30, 31, 32, 133, 160}"
    using True by (simp only: is_space_code code_lower_char if_True)
  with True show ?thesis unfolding is_upper_def by auto
next
  case False
  assume "is_space (lower_char c)"
  with False show ?thesis by (simp add: lower_char_def)
qed

lemma lower_char_eq_space:
  assumes "lower_char a = lower_char b"
  shows "is_space a \<longleftrightarrow> is_space b" and "is_space a \<Longrightarrow> a = b"
proof -
  show "is_space a \<longleftrightarrow> is_space b"
    using assms is_space_lower_char lower_char_space by metis
  then show "is_space a \<Longrightarrow> a = b"
    using assms is_space_lower_char by metis
qed

lemma eq_ci_length: "eq_ci s t \<Longrightarrow> length s = length t"
  unfolding eq_ci_def lower_def by (rule map_eq_imp_length_eq)

lemma eq_ci_all2: "eq_ci s t \<Longrightarrow> list_all2 (\<lambda>a b. lower_char a = lower_char b) s t"
proof -
  assume "eq_ci s t"
  then have "list_all2 (=) (map lower_char s) (map lower_char t)"
    by (simp add: eq_ci_def lower_def list.rel_eq)
  then show ?thesis by (simp add: list.rel_map)
qed

lemma all2_no_space:
  "list_all2 (\<lambda>a b. lower_char a = lower_char b) s t \<Longrightarrow> no_space t \<Longrightarrow> no_space s"
  unfolding no_space_def
  by (induction rule: list_all2_induct) (auto dest: lower_char_eq_space(1))

lemma eq_ci_no_space: "eq_ci s t \<Longrightarrow> no_space t \<Longrightarrow> no_space s"
  using eq_ci_all2 all2_no_space by blast

lemma all2_single_spaced:
  "list_all2 (\<lambda>a b. lower_char a = lower_char b) s t \<Longrightarrow> single_spaced t \<Longrightarrow> single_spaced s"
  unfolding single_spaced_def
proof (induction rule: list_all2_induct)
  case Nil
  then show ?case by simp
next
  case (Cons a s b t)
  from Cons.prems have t: "list_all (\<lambda>c. is_space c \<longrightarrow> c = CHR '' '') t \<and>
      successively (\<lambda>x y. \<not> (is_space x \<and> is_space y)) t"
    by (auto simp: successively_Cons)
  note ih = Cons.IH[OF t]
  have a: "is_space a \<longrightarrow> a = CHR '' ''"
    using Cons.hyps(1) Cons.prems lower_char_eq_space[of a b] by auto
  have "\<not> (is_space a \<and> is_space (hd s))" if "s \<noteq> []"
  proof -
    from that Cons.hyps(2) obtain a' s' b' t' where
      st: "s = a' # s'" "t = b' # t'" "lower_char a' = lower_char b'"
      by (cases s; cases t) auto
    with Cons.prems have "\<not> (is_space b \<and> is_space b')" by (simp add: successively_Cons)
    with st Cons.hyps(1) show ?thesis
      using lower_char_eq_space(1)[of a b] lower_char_eq_space(1)[of a' b'] by simp
  qed
  with a ih show ?case by (auto simp: successively_Cons)
qed

lemma eq_ci_single_spaced: "eq_ci s t \<Longrightarrow> single_spaced t \<Longrightarrow> single_spaced s"
  using eq_ci_all2 all2_single_spaced by blast

lemma sub_space_fix: "single_spaced s \<Longrightarrow> sub_space s = s"
proof (induction s rule: sub_space.induct)
  case 1
  then show ?case by simp
next
  case (2 c cs)
  from "2.prems" have tl: "single_spaced cs"
    by (auto simp: single_spaced_def successively_Cons)
  show ?case
  proof (cases "is_space c")
    case True
    with "2.prems" have c: "c = CHR '' ''" by (auto simp: single_spaced_def)
    from True "2.prems" have "cs = [] \<or> \<not> is_space (hd cs)"
      by (auto simp: single_spaced_def successively_Cons)
    then have d: "dropWhile is_space cs = cs" by (simp add: dropWhile_eq_self_iff)
    with True tl "2.IH"(1) c show ?thesis by simp
  next
    case False
    with tl "2.IH"(2) show ?thesis by simp
  qed
qed

lemma sub_space_no_space_append: "no_space a \<Longrightarrow> sub_space (a @ r) = a @ sub_space r"
  by (induction a) (auto simp: no_space_def)

lemma sub_space_no_space: "no_space a \<Longrightarrow> sub_space a = a"
  using sub_space_no_space_append[of a "[]"] by simp

lemma sub_space_run:
  assumes "r = [] \<or> \<not> is_space (hd r)"
  shows "sub_space (takeWhile is_space s @ r) =
     (if takeWhile is_space s = [] then sub_space r else CHR '' '' # sub_space r)"
proof (cases "takeWhile is_space s")
  case Nil
  then show ?thesis by simp
next
  case (Cons c w)
  have all: "\<forall>x \<in> set (c # w). is_space x"
    using set_takeWhileD[of _ is_space s] Cons by metis
  then have "dropWhile is_space (w @ r) = dropWhile is_space r"
    by (simp add: dropWhile_append)
  also have "\<dots> = r" using assms by (simp add: dropWhile_eq_self_iff)
  finally show ?thesis using Cons all by simp
qed

lemma match_rank_Some:
  "match_rank ci rs s = Some (g, r) \<Longrightarrow>
     s = g @ r \<and> (\<exists>x \<in> set rs. length g = length x \<and> (if ci then eq_ci g x else g = x))"
proof (induction rs)
  case Nil
  then show ?case by simp
next
  case (Cons x rs)
  show ?case
  proof (cases "if ci then eq_ci (take (length x) s) x else take (length x) s = x")
    case True
    with Cons.prems have g: "g = take (length x) s" and r: "r = drop (length x) s"
      by (auto split: if_splits)
    have "length g = length x"
    proof (cases ci)
      case True
      with \<open>if ci then eq_ci (take (length x) s) x else take (length x) s = x\<close> g
      show ?thesis by (auto dest: eq_ci_length)
    next
      case False
      with \<open>if ci then eq_ci (take (length x) s) x else take (length x) s = x\<close> g
      have "g = x" by simp
      then show ?thesis by simp
    qed
    moreover have "s = g @ r" by (simp add: g r)
    moreover have "if ci then eq_ci g x else g = x"
      using True g by (simp split: if_splits)
    ultimately show ?thesis by auto
  next
    case False
    with Cons.prems have "match_rank ci rs s = Some (g, r)" by (auto split: if_splits)
    from Cons.IH[OF this] show ?thesis by auto
  qed
qed

lemma take_test:
  assumes "no_space x" "r \<noteq> []" "is_space (hd r)"
  shows "eq_ci (take (length x) (g @ r)) x \<longleftrightarrow>
         length x \<le> length g \<and> eq_ci (take (length x) g) x"
proof (cases "length x \<le> length g")
  case True
  then show ?thesis by simp
next
  case False
  have "\<not> eq_ci (take (length x) (g @ r)) x"
  proof
    assume "eq_ci (take (length x) (g @ r)) x"
    then have ns: "no_space (take (length x) (g @ r))" using assms(1) by (rule eq_ci_no_space)
    from False assms(2) have "hd r \<in> set (take (length x - length g) r)"
      by (cases r) (auto simp: take_Cons' )
    then have "hd r \<in> set (take (length x) (g @ r))" by simp
    with ns assms(3) show False by (auto simp: no_space_def list_all_iff)
  qed
  with False show ?thesis by simp
qed

lemma match_rank_transfer:
  assumes "match_rank True rs (g @ r) = Some (g, r)"
    and "r \<noteq> []" "is_space (hd r)" "r' \<noteq> []" "is_space (hd r')"
    and "list_all no_space rs"
  shows "match_rank True rs (g @ r') = Some (g, r')"
  using assms(1,6)
proof (induction rs)
  case Nil
  then show ?case by simp
next
  case (Cons x rs)
  from Cons.prems(2) have nx: "no_space x" and nrs: "list_all no_space rs" by auto
  note t = take_test[OF nx assms(2,3), of g] take_test[OF nx assms(4,5), of g]
  show ?case
  proof (cases "eq_ci (take (length x) (g @ r)) x")
    case True
    with Cons.prems(1) have "take (length x) (g @ r) = g" by simp
    with True have lg: "length x = length g" by (auto dest: eq_ci_length)
    have "eq_ci (take (length x) (g @ r')) x" using True t by blast
    then show ?thesis using lg by simp
  next
    case False
    with Cons.prems(1) have "match_rank True rs (g @ r) = Some (g, r)" by simp
    note ih = Cons.IH[OF this nrs]
    have "\<not> eq_ci (take (length x) (g @ r')) x" using False t by blast
    then show ?thesis using ih by (simp del: take_append)
  qed
qed

lemma ranks_no_space: "list_all no_space RANKS"
  by code_simp

lemma of_no_space: "no_space ''of''"
  by code_simp

lemma takeWhile_space_Cons:
  "no_space t \<Longrightarrow> takeWhile is_space (CHR '' '' # t @ u) = (if t = [] then CHR '' '' # takeWhile is_space u else '' '')"
  by (cases t) (auto simp: no_space_def is_space_def)

lemma title_fullmatch_suit_sub_space:
  assumes fm: "title_fullmatch suit txt"
    and suit: "suit \<noteq> ''Major Arcana''" "no_space suit" "suit \<noteq> []"
  shows "title_fullmatch suit (sub_space txt)"
proof -
  from fm suit(1) obtain g1 s1 where
    mr: "match_rank True RANKS txt = Some (g1, s1)"
    by (cases "match_rank True RANKS txt") (auto simp: title_fullmatch_def)
  from fm suit(1) mr obtain s2 where ms: "match_spaces s1 = Some s2"
    by (cases "match_spaces s1") (auto simp: title_fullmatch_def)
  from fm suit(1) mr ms obtain s3 where mo: "match_ci ''of'' s2 = Some s3"
    by (cases "match_ci ''of'' s2") (auto simp: title_fullmatch_def)
  from fm suit(1) mr ms mo have
    "list_ex (\<lambda>k. eq_ci (drop k s3) suit) [1..<Suc (length (takeWhile is_space s3))]"
    by (simp add: title_fullmatch_def)
  then obtain k where
    k: "1 \<le> k" "k \<le> length (takeWhile is_space s3)" "eq_ci (drop k s3) suit"
    unfolding list_ex_iff by auto
  define w1 where "w1 = takeWhile is_space s1"
  define w2 where "w2 = takeWhile is_space s3"
  define o' where "o' = take (length ''of'') s2"
  define t where "t = drop k s3"
  from match_rank_Some[OF mr] obtain x where
    tx: "txt = g1 @ s1" and x: "x \<in> set RANKS" "eq_ci g1 x" by auto
  have g1: "no_space g1"
    using x ranks_no_space eq_ci_no_space by (auto simp: list_all_iff)
  from ms have w1: "w1 \<noteq> []" and s2: "s2 = dropWhile is_space s1"
    by (auto simp: match_spaces_def w1_def split: if_splits)
  have s1: "s1 = w1 @ s2" by (simp add: w1_def s2)
  from mo have o: "eq_ci o' ''of''" and s3: "s3 = drop (length ''of'') s2"
    by (auto simp: match_ci_def o'_def split: if_splits)
  have no: "no_space o'" using o of_no_space by (rule eq_ci_no_space)
  have lo: "length o' = length ''of''" using eq_ci_length[OF o] .
  then have o_ne: "o' \<noteq> []" by auto
  have s2': "s2 = o' @ s3" by (simp add: o'_def s3)
  have nt: "no_space t" using k(3) suit(2) unfolding t_def by (rule eq_ci_no_space)
  have lt: "length t = length suit" using eq_ci_length[OF k(3)] by (simp add: t_def)
  with suit(3) have t_ne: "t \<noteq> []" by auto
  have keq: "k = length w2"
  proof (rule ccontr)
    assume "k \<noteq> length w2"
    with k(2) have lt': "k < length (takeWhile is_space s3)" by (simp add: w2_def)
    then have "is_space (takeWhile is_space s3 ! k)"
      using nth_mem set_takeWhileD by metis
    moreover have "takeWhile is_space s3 ! k = s3 ! k" using lt' by (rule takeWhile_nth)
    moreover have "k < length s3" using lt' length_takeWhile_le[of is_space s3] by simp
    then have "s3 ! k = hd t" by (simp add: t_def hd_drop_conv_nth)
    ultimately have "is_space (hd t)" by simp
    with nt t_ne show False by (cases t) (auto simp: no_space_def)
  qed
  have w2: "w2 \<noteq> []" using k(1) keq by auto
  have t': "t = dropWhile is_space s3" by (simp add: t_def keq w2_def dropWhile_eq_drop)
  have s3': "s3 = w2 @ t" by (simp add: w2_def t')
  have hd_o: "\<not> is_space (hd o')" using no o_ne by (cases o') (auto simp: no_space_def)
  have hd_t: "\<not> is_space (hd t)" using nt t_ne by (cases t) (auto simp: no_space_def)
  define r' where "r' = CHR '' '' # o' @ CHR '' '' # t"
  have "sub_space txt = g1 @ sub_space (w1 @ o' @ w2 @ t)"
    by (simp add: tx s1 s2' s3' sub_space_no_space_append[OF g1])
  also have "sub_space (w1 @ o' @ w2 @ t) = CHR '' '' # sub_space (o' @ w2 @ t)"
    unfolding w1_def using sub_space_run[of "o' @ w2 @ t" s1] w1 hd_o o_ne
    by (simp add: w1_def)
  also have "sub_space (o' @ w2 @ t) = o' @ sub_space (w2 @ t)"
    by (rule sub_space_no_space_append[OF no])
  also have "sub_space (w2 @ t) = CHR '' '' # sub_space t"
    unfolding w2_def using sub_space_run[of t s3] w2 hd_t by (simp add: w2_def)
  also have "sub_space t = t" using nt by (rule sub_space_no_space)
  finally have sub: "sub_space txt = g1 @ r'" by (simp add: r'_def)
  have hd_s1: "is_space (hd s1)"
    using w1 hd_in_set[OF w1] set_takeWhileD[of "hd w1" is_space s1]
    by (cases s1) (auto simp: w1_def split: if_splits)
  have s1_ne: "s1 \<noteq> []" using w1 by (auto simp: w1_def)
  have mr': "match_rank True RANKS (g1 @ r') = Some (g1, r')"
    using mr[unfolded tx] s1_ne hd_s1 _ _ ranks_no_space
    by (rule match_rank_transfer) (simp_all add: r'_def is_space_def)
  have ms': "match_spaces r' = Some (o' @ CHR '' '' # t)"
    using hd_o o_ne by (cases o') (auto simp: match_spaces_def r'_def is_space_def)
  have mo': "match_ci ''of'' (o' @ CHR '' '' # t) = Some (CHR '' '' # t)"
    using o lo by (simp add: match_ci_def)
  have tw: "takeWhile is_space (CHR '' '' # t) = '' ''"
    using hd_t t_ne by (cases t) (auto simp: is_space_def)
  have "list_ex (\<lambda>k. eq_ci (drop k (CHR '' '' # t)) suit)
          [1..<Suc (length (takeWhile is_space (CHR '' '' # t)))]"
    unfolding tw using k(3) by (simp add: t_def)
  with mr' ms' mo' suit(1) show ?thesis
    by (simp add: title_fullmatch_def sub)
qed

lemma majors_single_spaced: "list_all single_spaced MAJORS"
  by code_simp

lemma title_fullmatch_major_sub_space:
  assumes "title_fullmatch ''Major Arcana'' txt"
  shows "title_fullmatch ''Major Arcana'' (sub_space txt)"
proof -
  from assms obtain m where m: "m \<in> set MAJORS" "eq_ci txt m"
    by (auto simp: title_fullmatch_def list_ex_iff)
  from m(1) majors_single_spaced have "single_spaced m" by (simp add: list_all_iff)
  with m(2) have "single_spaced txt" by (rule eq_ci_single_spaced)
  then have "sub_space txt = txt" by (rule sub_space_fix)
  with assms show ?thesis by simp
qed

lemma sections_labels:
  "list_all (\<lambda>s. s = ''Major Arcana'' \<or> (no_space s \<and> s \<noteq> [])) (map fst PAGES)"
  by code_simp

lemma title_fullmatch_sub_space:
  assumes "suit \<in> fst ` set PAGES" "title_fullmatch suit txt"
  shows "title_fullmatch suit (sub_space txt)"
proof (cases "suit = ''Major Arcana''")
  case True
  with assms(2) show ?thesis by (simp add: title_fullmatch_major_sub_space)
next
  case False
  from assms(1) sections_labels have "suit = ''Major Arcana'' \<or> (no_space suit \<and> suit \<noteq> [])"
    by (auto simp: list_all_iff)
  with False assms(2) show ?thesis by (intro title_fullmatch_suit_sub_space) auto
qed

lemma cards_of_all2:
  "cards_of L suit url doc ixs = Inr rs \<Longrightarrow>
     list_all2 (\<lambda>i r. card_of L suit url doc i = Inr r) ixs rs"
proof (induction ixs arbitrary: rs)
  case Nil
  then show ?case by simp
next
  case (Cons i ixs)
  then show ?case by (auto split: sum.splits)
qed

lemma parse_card_page_records:
  assumes "parse_card_page L suit url_path = Inr (results, log)"
  shows "\<exists>soup. get_soup L (urljoin L BASE url_path) = Inr soup \<and>
           list_all2 (\<lambda>i r. card_of L suit (urljoin L BASE url_path) (document soup) i = Inr r)
             (title_nodes suit (document soup) (content_of (document soup))) results"
proof -
  from assms obtain soup where g: "get_soup L (urljoin L BASE url_path) = Inr soup"
    by (cases "get_soup L (urljoin L BASE url_path)") (auto simp: parse_card_page_def Let_def)
  with assms have "cards_of L suit (urljoin L BASE url_path) (document soup)
      (title_nodes suit (document soup) (content_of (document soup))) = Inr results"
    by (auto simp: parse_card_page_def Let_def split: sum.splits)
  from cards_of_all2[OF this] g show ?thesis by blast
qed

lemma list_all2_right:
  "list_all2 P xs ys \<Longrightarrow> y \<in> set ys \<Longrightarrow> \<exists>x \<in> set xs. P x y"
  by (induction rule: list_all2_induct) auto

lemma card_of_card:
  "card_of L suit url doc i = Inr r \<Longrightarrow>
     suit_arcana r = suit \<and> card r = sub_space (get_text (doc ! i))"
  by (auto simp: card_of_def Let_def split: sum.splits)

lemma title_nodes_match:
  "i \<in> set (title_nodes suit doc c) \<Longrightarrow> title_fullmatch suit (get_text (doc ! i))"
  by (simp add: title_nodes_def is_title_node_def)

text \<open>
  C5. For each of the five sections, every record the Page Parser returns carries the
  label of the section, and its card title matches the title pattern of the section
  as a whole (the pattern is anchored at both ends and ignores case).
\<close>

theorem parse_card_page_cards_match:
  assumes "suit \<in> fst ` set PAGES"
    and "parse_card_page L suit url_path = Inr (results, log)"
  shows "list_all (\<lambda>r. suit_arcana r = suit \<and> title_fullmatch suit (card r)) results"
proof -
  from parse_card_page_records[OF assms(2)] obtain soup where
    all2: "list_all2 (\<lambda>i r. card_of L suit (urljoin L BASE url_path) (document soup) i = Inr r)
             (title_nodes suit (document soup) (content_of (document soup))) results"
    by blast
  have "suit_arcana r = suit \<and> title_fullmatch suit (card r)" if "r \<in> set results" for r
  proof -
    from list_all2_right[OF all2 that] obtain i where
      i: "i \<in> set (title_nodes suit (document soup) (content_of (document soup)))" and
      c: "card_of L suit (urljoin L BASE url_path) (document soup) i = Inr r"
      by blast
    from title_nodes_match[OF i] assms(1)
    have "title_fullmatch suit (sub_space (get_text (document soup ! i)))"
      by (intro title_fullmatch_sub_space)
    with card_of_card[OF c] show ?thesis by simp
  qed
  then show ?thesis by (simp add: list_all_iff)
qed

lemma card_page_parsed:
  "parse_card_page (example_lib card_page) ''Wands'' ''/wands'' =
     Inr ([\<lparr>suit_arcana = ''Wands'', card = ''Ace of Wands'', subtitle = [],
            description = ''Beginnings\<newline>A spark of inspiration.\<newline>Take the first step.'',
            image_url = ''https://www.thismighthurttarot.com/images/AceOfWands_forWeb.jpg'',
            page_url = ''https://www.thismighthurttarot.com/wands''\<rparr>], [])"
  by code_simp

lemma card_page_title_text:
  "get_text (document card_page ! 6) = ''Ace  of\<newline>Wands'' \<and>
   title_fullmatch ''Wands'' ''Ace  of\<newline>Wands'' \<and> title_fullmatch ''Wands'' ''Ace of Wands''"
  by code_simp

theorem parse_card_page_cards_match_witness:
  "''Wands'' \<in> fst ` set PAGES \<and>
   parse_card_page (example_lib card_page) ''Wands'' ''/wands'' =
     Inr ([\<lparr>suit_arcana = ''Wands'', card = ''Ace of Wands'', subtitle = [],
            description = ''Beginnings\<newline>A spark of inspiration.\<newline>Take the first step.'',
            image_url = ''https://www.thismighthurttarot.com/images/AceOfWands_forWeb.jpg'',
            page_url = ''https://www.thismighthurttarot.com/wands''\<rparr>], []) \<and>
   get_text (document card_page ! 6) = ''Ace  of\<newline>Wands'' \<and>
   title_fullmatch ''Wands'' ''Ace of Wands''"
proof -
  have s: "''Wands'' \<in> fst ` set PAGES" by (simp add: PAGES_def)
  from parse_card_page_cards_match[OF s card_page_parsed]
  have "title_fullmatch ''Wands'' ''Ace of Wands''" by simp
  with s card_page_parsed card_page_title_text show ?thesis by simp
qed

section \<open>Properties of the descriptions\<close>

lemma no_space_nl_no_blank_line: "no_space_nl t \<Longrightarrow> \<not> sublist [newline, newline] t"
proof
  assume n: "no_space_nl t" and "sublist [newline, newline] t"
  then obtain ps ss where "t = ps @ [newline, newline] @ ss" by (auto simp: sublist_def)
  with n have "successively (\<lambda>x y. \<not> (is_space x \<and> y = newline))
      (ps @ [newline, newline] @ ss)"
    by (simp add: no_space_nl_def)
  then have "successively (\<lambda>x y. \<not> (is_space x \<and> y = newline)) [newline, newline]"
    unfolding successively_append_iff by blast
  then show False by simp
qed

lemma sub_blank_append:
  "a \<noteq> [] \<Longrightarrow> \<not> is_blank (last a) \<Longrightarrow> sub_blank (a @ x) = sub_blank a @ sub_blank x"
proof (induction a rule: sub_blank.induct)
  case 1
  then show ?case by simp
next
  case (2 c cs)
  show ?case
  proof (cases "is_blank c")
    case True
    with "2.prems" have ne: "cs \<noteq> []" by auto
    with "2.prems" have l: "last cs \<in> set cs" "\<not> is_blank (last cs)" by auto
    then have d: "dropWhile is_blank (cs @ x) = dropWhile is_blank cs @ x"
      by (intro dropWhile_append1)
    from l have dne: "dropWhile is_blank cs \<noteq> []" by auto
    have "cs = takeWhile is_blank cs @ dropWhile is_blank cs" by simp
    with dne have "last cs = last (dropWhile is_blank cs)" by (metis last_appendR)
    with l have "\<not> is_blank (last (dropWhile is_blank cs))" by simp
    from "2.IH"(1)[OF True dne this] True d show ?thesis by simp
  next
    case False
    show ?thesis
    proof (cases "cs = []")
      case True
      with False show ?thesis by simp
    next
      case ne: False
      with "2.prems" have "\<not> is_blank (last cs)" by simp
      from "2.IH"(2)[OF False ne this] False show ?thesis by simp
    qed
  qed
qed

lemma takeWhile_strict:
  assumes "cs \<noteq> []" "\<not> P (last cs)"
  shows "length (takeWhile P cs) < length cs"
proof -
  have "takeWhile P cs \<noteq> cs"
    using assms by (metis last_in_set takeWhile_eq_all_conv)
  moreover have "length (takeWhile P cs) \<le> length cs" by (rule length_takeWhile_le)
  ultimately show ?thesis
    by (metis le_neq_implies_less takeWhile_eq_take take_all_iff)
qed

lemma sub_space_nl_append:
  "a \<noteq> [] \<Longrightarrow> \<not> is_space (last a) \<Longrightarrow>
     sub_space_nl (a @ x) = sub_space_nl a @ sub_space_nl x \<and>
     sub_space_nl a \<noteq> [] \<and> last (sub_space_nl a) = last a"
proof (induction a rule: sub_space_nl.induct)
  case 1
  then show ?case by simp
next
  case (2 c cs)
  have m: "match_space_nl ((c # cs) @ x) = match_space_nl (c # cs)"
  proof (cases "is_space c")
    case True
    with "2.prems" have ne: "cs \<noteq> []" by auto
    with "2.prems" have "last cs \<in> set cs" "\<not> is_space (last cs)" by auto
    then have "takeWhile is_space (cs @ x) = takeWhile is_space cs"
      by (intro takeWhile_append1)
    then show ?thesis by simp
  next
    case False
    then show ?thesis by simp
  qed
  show ?case
  proof (cases "match_space_nl (c # cs)")
    case None
    show ?thesis
    proof (cases "cs = []")
      case True
      with None m show ?thesis by simp
    next
      case ne: False
      with "2.prems" have "\<not> is_space (last cs)" by simp
      from "2.IH"(1)[OF None ne this] None m ne show ?thesis by simp
    qed
  next
    case (Some n)
    then obtain k where sp: "is_space c" and k: "last_newline (takeWhile is_space cs) = Some k"
      and n: "n = k + 2"
      by (auto split: if_splits option.splits)
    from sp "2.prems" have ne: "cs \<noteq> []" by auto
    with "2.prems" have l: "\<not> is_space (last cs)" by simp
    have kb: "k < length (takeWhile is_space cs)" using k by (rule last_newline_bound)
    have "length (takeWhile is_space cs) < length cs" using ne l by (rule takeWhile_strict)
    with kb have kl: "Suc k < length cs" by simp
    have d: "drop n (c # cs) = drop (Suc k) cs" by (simp add: n)
    have dne: "drop n (c # cs) \<noteq> []" using kl d by simp
    have dl: "last (drop n (c # cs)) = last cs" using kl d by simp
    have dx: "drop n ((c # cs) @ x) = drop n (c # cs) @ x" using kl n by simp
    from "2.IH"(2)[OF Some dne] dl l
    have ih: "sub_space_nl (drop n (c # cs) @ x) = sub_space_nl (drop n (c # cs)) @ sub_space_nl x \<and>
       sub_space_nl (drop n (c # cs)) \<noteq> [] \<and> last (sub_space_nl (drop n (c # cs))) = last cs"
      by simp
    have "sub_space_nl ((c # cs) @ x) = newline # sub_space_nl (drop n ((c # cs) @ x))"
      using m Some by simp
    with ih dx Some ne show ?thesis by simp
  qed
qed

lemma sub_blank_last:
  "a \<noteq> [] \<Longrightarrow> \<not> is_blank (last a) \<Longrightarrow> sub_blank a \<noteq> [] \<and> last (sub_blank a) = last a"
proof (induction a rule: sub_blank.induct)
  case 1
  then show ?case by simp
next
  case (2 c cs)
  show ?case
  proof (cases "is_blank c")
    case True
    with "2.prems" have ne: "cs \<noteq> []" by auto
    with "2.prems" have l: "last cs \<in> set cs" "\<not> is_blank (last cs)" by auto
    then have dne: "dropWhile is_blank cs \<noteq> []" by auto
    have "cs = takeWhile is_blank cs @ dropWhile is_blank cs" by simp
    with dne have e: "last cs = last (dropWhile is_blank cs)" by (metis last_appendR)
    with l have "\<not> is_blank (last (dropWhile is_blank cs))" by simp
    from "2.IH"(1)[OF True dne this] True e ne show ?thesis by simp
  next
    case False
    show ?thesis
    proof (cases "cs = []")
      case True
      with False show ?thesis by simp
    next
      case ne: False
      with "2.prems" have "\<not> is_blank (last cs)" by simp
      from "2.IH"(2)[OF False ne this] False ne show ?thesis by simp
    qed
  qed
qed

lemma sub_blank_hd_keep: "a \<noteq> [] \<Longrightarrow> \<not> is_blank (hd a) \<Longrightarrow> hd (sub_blank a) = hd a"
  by (cases a) auto

lemma sub_space_nl_hd_keep: "a \<noteq> [] \<Longrightarrow> \<not> is_space (hd a) \<Longrightarrow> hd (sub_space_nl a) = hd a"
  by (cases a) auto

lemma stripped_sub_blank: "stripped p \<Longrightarrow> stripped (sub_blank p)"
proof -
  assume s: "stripped p"
  then have ne: "p \<noteq> []" and h: "\<not> is_blank (hd p)" and l: "\<not> is_blank (last p)"
    using is_blank_space by (auto simp: stripped_def)
  from sub_blank_last[OF ne l] sub_blank_hd_keep[OF ne h] s show ?thesis
    by (simp add: stripped_def)
qed

lemma stripped_sub_space_nl: "stripped p \<Longrightarrow> stripped (sub_space_nl p)"
  using sub_space_nl_append[of p "[]"] sub_space_nl_hd_keep[of p]
  by (auto simp: stripped_def)

lemma strip_stripped: "stripped s \<Longrightarrow> strip s = s"
proof -
  assume s: "stripped s"
  then have a: "dropWhile is_space s = s" by (simp add: stripped_def dropWhile_eq_self_iff)
  from s have "dropWhile is_space (rev s) = rev s"
    by (simp add: stripped_def dropWhile_eq_self_iff hd_rev)
  with a show ?thesis by (simp add: strip_def)
qed

lemma sub_space_nl_blank_line:
  assumes "b = [] \<or> \<not> is_space (hd b)"
  shows "sub_space_nl (newline # newline # b) = newline # sub_space_nl b"
proof -
  have "takeWhile is_space b = []" using assms by (cases b) auto
  then show ?thesis by simp
qed

lemma join_stripped: "xs \<noteq> [] \<Longrightarrow> list_all stripped xs \<Longrightarrow> stripped (join sep xs)"
proof (induction sep xs rule: join.induct)
  case (1 sep)
  then show ?case by simp
next
  case (2 sep p)
  then show ?case by simp
next
  case (3 sep p q ps)
  then have r: "stripped (join sep (q # ps))" and p: "stripped p" by auto
  then show ?case by (auto simp: stripped_def)
qed

lemma clean_join:
  "list_all stripped parts \<Longrightarrow>
     sub_space_nl (sub_blank (join [newline, newline] parts)) =
       join [newline] (map (\<lambda>p. sub_space_nl (sub_blank p)) parts)"
proof (induction "[newline, newline]" parts rule: join.induct)
  case 1
  then show ?case by simp
next
  case (2 p)
  then show ?case by simp
next
  case (3 p q ps)
  define rest where "rest = join [newline, newline] (q # ps)"
  from "3.prems" have p: "stripped p" and qs: "list_all stripped (q # ps)" by auto
  have rest: "stripped rest" unfolding rest_def using qs by (intro join_stripped) auto
  have ap: "stripped (sub_blank p)" using p by (rule stripped_sub_blank)
  have ar: "stripped (sub_blank rest)" using rest by (rule stripped_sub_blank)
  have "sub_blank (p @ newline # newline # rest) = sub_blank p @ sub_blank (newline # newline # rest)"
    using p is_blank_space by (intro sub_blank_append) (auto simp: stripped_def)
  also have "sub_blank (newline # newline # rest) = newline # newline # sub_blank rest"
    by simp
  finally have a: "sub_blank (p @ newline # newline # rest) =
      sub_blank p @ newline # newline # sub_blank rest" .
  have "sub_space_nl (sub_blank p @ newline # newline # sub_blank rest) =
      sub_space_nl (sub_blank p) @ sub_space_nl (newline # newline # sub_blank rest)"
    using ap sub_space_nl_append[of "sub_blank p"] by (simp add: stripped_def)
  also have "sub_space_nl (newline # newline # sub_blank rest) = newline # sub_space_nl (sub_blank rest)"
    using ar by (intro sub_space_nl_blank_line) (simp add: stripped_def)
  finally have b: "sub_space_nl (sub_blank (p @ newline # newline # rest)) =
      sub_space_nl (sub_blank p) @ newline # sub_space_nl (sub_blank rest)"
    using a by simp
  from "3.hyps"[OF qs] b show ?case by (simp add: rest_def)
qed

lemma text_clean_stripped: "stripped p \<Longrightarrow> text_clean p = sub_space_nl (sub_blank p)"
  unfolding text_clean_def
  by (intro strip_stripped stripped_sub_space_nl stripped_sub_blank)

lemma text_clean_join:
  assumes "list_all stripped parts"
  shows "text_clean (join [newline, newline] parts) = join [newline] (map text_clean parts)"
proof -
  have m: "map text_clean parts = map (\<lambda>p. sub_space_nl (sub_blank p)) parts"
    using assms text_clean_stripped by (intro map_cong) (auto simp: list_all_iff)
  show ?thesis
  proof (cases "parts = []")
    case True
    then show ?thesis by (simp add: text_clean_def strip_def)
  next
    case False
    have "list_all stripped (map (\<lambda>p. sub_space_nl (sub_blank p)) parts)"
      using assms stripped_sub_space_nl stripped_sub_blank by (auto simp: list_all_iff)
    with False have "stripped (join [newline] (map (\<lambda>p. sub_space_nl (sub_blank p)) parts))"
      by (intro join_stripped) auto
    then show ?thesis
      unfolding m text_clean_def clean_join[OF assms] by (rule strip_stripped)
  qed
qed

lemma strip_result: "strip x \<noteq> [] \<Longrightarrow> stripped (strip x)"
proof -
  define u where "u = dropWhile is_space x"
  define v where "v = dropWhile is_space (rev u)"
  assume "strip x \<noteq> []"
  then have v: "v \<noteq> []" by (simp add: strip_def u_def v_def)
  have "rev u = takeWhile is_space (rev u) @ v" by (simp add: v_def)
  with v have "last (rev u) = last v" by (metis last_appendR)
  moreover from v have une: "u \<noteq> []" by (auto simp: v_def)
  ultimately have "hd u = last v" by (simp add: last_rev)
  moreover have "\<not> is_space (hd u)" using une unfolding u_def by (rule hd_dropWhile)
  ultimately have h: "\<not> is_space (hd (rev v))" using v by (simp add: hd_rev)
  have "\<not> is_space (hd v)" using v unfolding v_def by (rule hd_dropWhile)
  then have l: "\<not> is_space (last (rev v))" using v by (simp add: last_rev)
  from v h l show ?thesis by (simp add: strip_def u_def v_def stripped_def)
qed

lemma get_text_stripped: "get_text el \<noteq> [] \<Longrightarrow> stripped (get_text el)"
proof -
  define xs where "xs = filter (\<lambda>s. s \<noteq> [])
       (map (\<lambda>n. strip (str n)) (filter (\<lambda>n. \<not> is_Tag n) (descendants el)))"
  assume "get_text el \<noteq> []"
  then have ne: "xs \<noteq> []" by (auto simp: get_text_def xs_def)
  have "list_all stripped xs"
    unfolding xs_def using strip_result by (auto simp: list_all_iff)
  with ne show ?thesis unfolding get_text_def xs_def[symmetric] by (rule join_stripped)
qed

lemma collect_stripped: "list_all stripped (collect suit nodes)"
  by (induction nodes) (auto simp: get_text_stripped)

lemma card_of_description:
  "card_of L suit url doc i = Inr r \<Longrightarrow>
     description r = join [newline] (map text_clean (collect_paragraphs doc i suit))"
  using text_clean_join[OF collect_stripped]
  by (auto simp: card_of_def Let_def collect_paragraphs_def split: sum.splits)

text \<open>
  C10. The output of the Text Normalizer never holds two newlines in a row. The
  paragraphs the Page Parser collects for a card are joined by a blank line before the
  normalizer runs; the description of the record is the normalized paragraphs joined
  by one newline each, and it holds no blank line.
\<close>

theorem description_single_newlines:
  "\<not> sublist [newline, newline] (text_clean s) \<and>
   (parse_card_page L suit url_path = Inr (results, log) \<longrightarrow>
      (\<exists>soup. get_soup L (urljoin L BASE url_path) = Inr soup \<and>
         list_all2
           (\<lambda>i r. description r =
                    join [newline] (map text_clean (collect_paragraphs (document soup) i suit)) \<and>
                  \<not> sublist [newline, newline] (description r))
           (title_nodes suit (document soup) (content_of (document soup))) results))"
proof -
  have one: "\<not> sublist [newline, newline] (text_clean t)" for t
    using text_clean_no_space_nl by (rule no_space_nl_no_blank_line)
  have two: "\<exists>soup. get_soup L (urljoin L BASE url_path) = Inr soup \<and>
         list_all2
           (\<lambda>i r. description r =
                    join [newline] (map text_clean (collect_paragraphs (document soup) i suit)) \<and>
                  \<not> sublist [newline, newline] (description r))
           (title_nodes suit (document soup) (content_of (document soup))) results"
    if p: "parse_card_page L suit url_path = Inr (results, log)"
  proof -
    from parse_card_page_records[OF p] obtain soup where
      g: "get_soup L (urljoin L BASE url_path) = Inr soup" and
      all2: "list_all2 (\<lambda>i r. card_of L suit (urljoin L BASE url_path) (document soup) i = Inr r)
               (title_nodes suit (document soup) (content_of (document soup))) results"
      by blast
    have "description r =
            join [newline] (map text_clean (collect_paragraphs (document soup) i suit)) \<and>
          \<not> sublist [newline, newline] (description r)"
      if c: "card_of L suit (urljoin L BASE url_path) (document soup) i = Inr r" for i r
    proof -
      from c have d: "description r =
          text_clean (join [newline, newline] (collect_paragraphs (document soup) i suit))"
        by (auto simp: card_of_def Let_def split: sum.splits)
      have "\<not> sublist [newline, newline] (description r)" unfolding d by (rule one)
      with card_of_description[OF c] show ?thesis by blast
    qed
    with all2 have "list_all2
           (\<lambda>i r. description r =
                    join [newline] (map text_clean (collect_paragraphs (document soup) i suit)) \<and>
                  \<not> sublist [newline, newline] (description r))
           (title_nodes suit (document soup) (content_of (document soup))) results"
      by (rule list_all2_mono)
    with g show ?thesis by blast
  qed
  from one two show ?thesis by blast
qed

lemma card_page_paragraphs:
  "collect_paragraphs (document card_page) 6 ''Wands'' =
     [''Beginnings'', ''A spark  of inspiration.'', ''Take the first step.''] \<and>
   title_nodes ''Wands'' (document card_page) (content_of (document card_page)) = [6] \<and>
   get_soup (example_lib card_page) (urljoin (example_lib card_page) BASE ''/wands'') =
     Inr card_page"
  by code_simp

theorem description_single_newlines_witness:
  "parse_card_page (example_lib card_page) ''Wands'' ''/wands'' =
     Inr ([\<lparr>suit_arcana = ''Wands'', card = ''Ace of Wands'', subtitle = [],
            description = ''Beginnings\<newline>A spark of inspiration.\<newline>Take the first step.'',
            image_url = ''https://www.thismighthurttarot.com/images/AceOfWands_forWeb.jpg'',
            page_url = ''https://www.thismighthurttarot.com/wands''\<rparr>], []) \<and>
   collect_paragraphs (document card_page) 6 ''Wands'' =
     [''Beginnings'', ''A spark  of inspiration.'', ''Take the first step.''] \<and>
   (\<exists>soup. get_soup (example_lib card_page) (urljoin (example_lib card_page) BASE ''/wands'') =
            Inr soup \<and>
      list_all2
        (\<lambda>i r. description r =
                 join [newline] (map text_clean (collect_paragraphs (document soup) i ''Wands'')) \<and>
               \<not> sublist [newline, newline] (description r))
        (title_nodes ''Wands'' (document soup) (content_of (document soup)))
        [\<lparr>suit_arcana = ''Wands'', card = ''Ace of Wands'', subtitle = [],
            description = ''Beginnings\<newline>A spark of inspiration.\<newline>Take the first step.'',
            image_url = ''https://www.thismighthurttarot.com/images/AceOfWands_forWeb.jpg'',
            page_url = ''https://www.thismighthurttarot.com/wands''\<rparr>])"
  using description_single_newlines[of "[]" "example_lib card_page" "''Wands''" "''/wands''"
      "[\<lparr>suit_arcana = ''Wands'', card = ''Ace of Wands'', subtitle = [],
            description = ''Beginnings\<newline>A spark of inspiration.\<newline>Take the first step.'',
            image_url = ''https://www.thismighthurttarot.com/images/AceOfWands_forWeb.jpg'',
            page_url = ''https://www.thismighthurttarot.com/wands''\<rparr>]" "[]"]
    card_page_parsed card_page_paragraphs
  by blast

section \<open>Properties of the subtitles\<close>






end
